theory Spec2Isabelle
  imports Complex_Main "HOL-Library.Signed_Division"
begin

section \<open>The arithmetic provider and the exponent type\<close>

text \<open>
  The exponentiation tasks of \<^verbatim>\<open>src/exp.cpp\<close> drive an arithmetic context
  (\<^verbatim>\<open>gw()\<close>) and read exponents of type \<^verbatim>\<open>Giant\<close>. Neither is part of
  \<^verbatim>\<open>exp.cpp\<close>; both are modelled here by their mathematical meaning. A residue
  (\<^verbatim>\<open>GWNum\<close>) is a natural number reduced modulo the input modulus \<open>N\<close>; a
  \<^verbatim>\<open>Giant\<close> is a natural number. The C \<^verbatim>\<open>int\<close> counters of the source
  (\<^verbatim>\<open>i\<close>, \<^verbatim>\<open>len\<close>, \<^verbatim>\<open>j\<close>, ...) are values of type \<open>int\<close>, because
  \<^verbatim>\<open>bitlen() - 1\<close> can be negative.
\<close>

type_synonym Giant = nat
type_synonym GWNum = nat

text \<open>Modelled from the spec: \<^verbatim>\<open>Giant::bitlen()\<close>, the number of binary digits of
  the value (0 for the value 0); the class \<^verbatim>\<open>Giant\<close> is not part of \<^verbatim>\<open>exp.cpp\<close>.\<close>

fun Giant_bitlen :: "Giant \<Rightarrow> int" where
  "Giant_bitlen e = (if e = 0 then 0 else 1 + Giant_bitlen (e div 2))"

text \<open>Modelled from the spec: \<^verbatim>\<open>Giant::bit(i)\<close>, binary digit \<open>i\<close> of the value
  (digit 0 is the least significant one).\<close>

definition Giant_bit :: "Giant \<Rightarrow> int \<Rightarrow> bool" where
  "Giant_bit e k = odd (e div 2 ^ nat k)"

text \<open>Modelled from the spec: \<^verbatim>\<open>Giant::power(k)\<close>, which replaces the value by its
  \<open>k\<close>-th power.\<close>

definition Giant_power :: "Giant \<Rightarrow> int \<Rightarrow> Giant" where
  "Giant_power e k = e ^ nat k"

text \<open>Modelled from the spec: the assignment of an integer to a residue
  (\<^verbatim>\<open>X = _x0\<close>, \<^verbatim>\<open>X = state()->X()\<close>), which yields the residue of that integer
  modulo \<open>N\<close>.\<close>

definition gw_assign :: "nat \<Rightarrow> nat \<Rightarrow> GWNum" where
  "gw_assign N v = v mod N"

text \<open>Modelled from the spec: \<^verbatim>\<open>gw().square(src, dst, flags)\<close>. The flag
  \<^verbatim>\<open>GWMUL_MULBYCONST\<close> multiplies the square by the constant installed with
  \<^verbatim>\<open>setmulbyconst\<close>; the \<^verbatim>\<open>GWMUL_STARTNEXTFFT\<close> and \<^verbatim>\<open>GWMUL_FFT_S1/S2\<close>
  flags are hints about the transform domain and do not change the value.\<close>

definition gw_square :: "nat \<Rightarrow> nat \<Rightarrow> GWNum \<Rightarrow> bool \<Rightarrow> GWNum" where
  "gw_square N mulbyconst x MULBYCONST =
     (if MULBYCONST then (x * x * mulbyconst) mod N else (x * x) mod N)"

text \<open>Modelled from the spec: \<^verbatim>\<open>gw().mul(a, b, dst, flags)\<close>.\<close>

definition gw_mul :: "nat \<Rightarrow> GWNum \<Rightarrow> GWNum \<Rightarrow> GWNum" where
  "gw_mul N a b = (a * b) mod N"

text \<open>Modelled from the spec: \<^verbatim>\<open>gw().sub(a, b, dst, flags)\<close>, the difference of two
  residues modulo \<open>N\<close>.\<close>

definition gw_sub :: "nat \<Rightarrow> GWNum \<Rightarrow> GWNum \<Rightarrow> GWNum" where
  "gw_sub N a b = nat ((int a - int b) mod int N)"

text \<open>Modelled from the spec: the macro \<^verbatim>\<open>GWASSERT\<close> is defined outside \<^verbatim>\<open>exp.cpp\<close>; a
  failed assertion is fatal and ends the task. A failed \<^verbatim>\<open>GWASSERT\<close> and the
  \<^verbatim>\<open>TaskRestartException\<close> are the two ways in which a task of \<^verbatim>\<open>exp.cpp\<close> ends
  without a result.\<close>

datatype error = AssertionFailed | TaskRestart

record State =
  iteration :: int
  X :: Giant

section \<open>FastExp\<close>

record FastExp =
  fe_N :: nat
  fe_exp :: Giant
  fe_x0 :: nat
  fe_iterations :: int
  fe_state :: "State option"

text \<open>\<^verbatim>\<open>FastExp::init\<close>: the assertion on \<^verbatim>\<open>x0\<close>, the iteration count
  \<^verbatim>\<open>_exp.bitlen() - 1\<close> and the state read from the file (\<open>None\<close> when the file
  holds none).\<close>

definition FastExp_init :: "nat \<Rightarrow> nat \<Rightarrow> Giant \<Rightarrow> State option \<Rightarrow> nat \<Rightarrow> error + FastExp" where
  "FastExp_init N maxmulbyconst e file x0 =
     (if x0 \<le> maxmulbyconst
      then Inr \<lparr>fe_N = N, fe_exp = e, fe_x0 = x0,
                fe_iterations = Giant_bitlen e - 1, fe_state = file\<rparr>
      else Inl AssertionFailed)"

text \<open>The loop of \<^verbatim>\<open>FastExp::execute\<close>; it returns the locals \<^verbatim>\<open>i\<close> and
  \<^verbatim>\<open>X\<close> as they are at \<^verbatim>\<open>done()\<close>.\<close>

function FastExp_loop :: "FastExp \<Rightarrow> int \<Rightarrow> int \<Rightarrow> GWNum \<Rightarrow> State" where
  "FastExp_loop t len i x =
     (if i < len
      then FastExp_loop t len (i + 1)
             (gw_square (fe_N t) (fe_x0 t) x (Giant_bit (fe_exp t) (len - i - 1)))
      else \<lparr>iteration = i, X = x\<rparr>)"
  by pat_completeness auto
termination
  by (relation "measure (\<lambda>(t, len, i, x). nat (len - i))") auto

definition FastExp_execute :: "FastExp \<Rightarrow> State" where
  "FastExp_execute t =
     (case fe_state t of
        None \<Rightarrow> FastExp_loop t (fe_iterations t) 0 (gw_assign (fe_N t) (fe_x0 t))
      | Some s \<Rightarrow> FastExp_loop t (fe_iterations t) (iteration s) (gw_assign (fe_N t) (X s)))"

text \<open>\<^verbatim>\<open>init\<close> followed by \<^verbatim>\<open>execute\<close>, as the caller of the task runs them.\<close>

definition FastExp_run :: "nat \<Rightarrow> nat \<Rightarrow> Giant \<Rightarrow> State option \<Rightarrow> nat \<Rightarrow> error + State" where
  "FastExp_run N maxmulbyconst e file x0 =
     (case FastExp_init N maxmulbyconst e file x0 of
        Inl err \<Rightarrow> Inl err
      | Inr t \<Rightarrow> Inr (FastExp_execute t))"

section \<open>SlowExp\<close>

record SlowExp =
  se_N :: nat
  se_exp :: Giant
  se_X0 :: Giant
  se_iterations :: int
  se_state :: "State option"

definition SlowExp_init :: "nat \<Rightarrow> Giant \<Rightarrow> State option \<Rightarrow> Giant \<Rightarrow> SlowExp" where
  "SlowExp_init N e file X0 =
     \<lparr>se_N = N, se_exp = e, se_X0 = X0,
      se_iterations = Giant_bitlen e - 1, se_state = file\<rparr>"

text \<open>The loop of \<^verbatim>\<open>SlowExp::execute\<close>: a squaring, then the multiplication by the
  residue \<^verbatim>\<open>X0\<close> when the exponent bit is set.\<close>

function SlowExp_loop :: "SlowExp \<Rightarrow> GWNum \<Rightarrow> int \<Rightarrow> int \<Rightarrow> GWNum \<Rightarrow> State" where
  "SlowExp_loop t X0 len i x =
     (if i < len
      then (let x1 = gw_square (se_N t) 1 x False;
                x2 = (if Giant_bit (se_exp t) (len - i - 1) then gw_mul (se_N t) x1 X0 else x1)
            in SlowExp_loop t X0 len (i + 1) x2)
      else \<lparr>iteration = i, X = x\<rparr>)"
  by pat_completeness auto
termination
  by (relation "measure (\<lambda>(t, X0, len, i, x). nat (len - i))") auto

definition SlowExp_execute :: "SlowExp \<Rightarrow> State" where
  "SlowExp_execute t =
     (let X0 = gw_assign (se_N t) (se_X0 t) in
      case se_state t of
        None \<Rightarrow> SlowExp_loop t X0 (se_iterations t) 0 X0
      | Some s \<Rightarrow> SlowExp_loop t X0 (se_iterations t) (iteration s) (gw_assign (se_N t) (X s)))"

definition SlowExp_run :: "nat \<Rightarrow> Giant \<Rightarrow> State option \<Rightarrow> Giant \<Rightarrow> State" where
  "SlowExp_run N e file X0 = SlowExp_execute (SlowExp_init N e file X0)"

section \<open>Binary digits of the exponent\<close>

declare Giant_bitlen.simps [simp del]
declare FastExp_loop.simps [simp del]

lemma Giant_bitlen_nonneg: "0 \<le> Giant_bitlen e"
proof (induction e rule: Giant_bitlen.induct)
  case (1 e)
  then show ?case by (subst Giant_bitlen.simps) simp
qed

lemma Giant_bitlen_pos: "0 < e \<Longrightarrow> 1 \<le> Giant_bitlen e"
  using Giant_bitlen_nonneg [of "e div 2"] by (subst Giant_bitlen.simps) simp

lemma div_pow2_Suc: "(e::nat) div 2 ^ Suc k = e div 2 div 2 ^ k"
  by (simp add: div_mult2_eq)

lemma div_pow2_Suc': "(e::nat) div 2 ^ Suc k = e div 2 ^ k div 2"
proof -
  have "e div 2 ^ Suc k = e div (2 ^ k * 2)" by (simp add: mult.commute)
  also have "\<dots> = e div 2 ^ k div 2" by (rule div_mult2_eq)
  finally show ?thesis .
qed

lemma Giant_top: "0 < e \<Longrightarrow> e div 2 ^ nat (Giant_bitlen e - 1) = 1"
proof (induction e rule: Giant_bitlen.induct)
  case (1 e)
  show ?case
  proof (cases "e div 2 = 0")
    case True
    with 1 have "e = 1" by presburger
    then show ?thesis by (simp add: Giant_bitlen.simps [of "Suc 0"] Giant_bitlen.simps [of 0])
  next
    case False
    then have pos: "0 < e div 2" by simp
    have ih: "(e div 2) div 2 ^ nat (Giant_bitlen (e div 2) - 1) = 1"
      using 1 pos by simp
    have b: "1 \<le> Giant_bitlen (e div 2)" using pos by (rule Giant_bitlen_pos)
    have "Giant_bitlen e - 1 = Giant_bitlen (e div 2)"
      using 1(2) by (subst Giant_bitlen.simps) simp
    moreover have "nat (Giant_bitlen (e div 2)) = Suc (nat (Giant_bitlen (e div 2) - 1))"
      using b by simp
    ultimately have "e div 2 ^ nat (Giant_bitlen e - 1)
        = e div 2 ^ Suc (nat (Giant_bitlen (e div 2) - 1))" by simp
    also have "\<dots> = 1" unfolding div_pow2_Suc by (rule ih)
    finally show ?thesis .
  qed
qed

lemma div_pow2_step:
  "(e::nat) div 2 ^ k = 2 * (e div 2 ^ Suc k) + (if odd (e div 2 ^ k) then 1 else 0)"
  unfolding div_pow2_Suc' by (cases "odd (e div 2 ^ k)") (auto elim: oddE)

lemma gw_square_pow:
  "gw_square N x0 (x0 ^ a mod N) b = x0 ^ (2 * a + (if b then 1 else 0)) mod N"
proof -
  have sq: "(x0 ^ a mod N) * (x0 ^ a mod N) mod N = x0 ^ (2 * a) mod N"
    by (simp add: mod_mult_eq mult_2 power_add)
  show ?thesis
  proof (cases b)
    case True
    have "(x0 ^ a mod N) * (x0 ^ a mod N) * x0 mod N
        = ((x0 ^ a mod N) * (x0 ^ a mod N) mod N) * x0 mod N"
      by (rule mod_mult_left_eq [symmetric])
    also have "\<dots> = x0 ^ (2 * a) * x0 mod N"
      unfolding sq by (rule mod_mult_left_eq)
    finally show ?thesis using True by (simp add: gw_square_def mult.commute)
  next
    case False
    then show ?thesis using sq by (simp add: gw_square_def)
  qed
qed

lemma FastExp_loop_pow:
  "0 \<le> i \<Longrightarrow> i \<le> len \<Longrightarrow> x = fe_x0 t ^ (fe_exp t div 2 ^ nat (len - i)) mod fe_N t \<Longrightarrow>
   FastExp_loop t len i x = \<lparr>iteration = len, X = fe_x0 t ^ fe_exp t mod fe_N t\<rparr>"
proof (induction t len i x rule: FastExp_loop.induct)
  case (1 t len i x)
  show ?case
  proof (cases "i < len")
    case True
    define k where "k = nat (len - (i + 1))"
    have k: "nat (len - i) = Suc k" "nat (len - i - 1) = k" using True by (simp_all add: k_def)
    have "gw_square (fe_N t) (fe_x0 t) x (Giant_bit (fe_exp t) (len - i - 1))
        = fe_x0 t ^ (fe_exp t div 2 ^ k) mod fe_N t"
      unfolding 1(4) gw_square_pow Giant_bit_def k
      using div_pow2_step [of "fe_exp t" k] by simp
    with 1 True show ?thesis by (subst FastExp_loop.simps) (simp add: k_def)
  next
    case False
    with 1 show ?thesis by (subst FastExp_loop.simps) simp
  qed
qed

lemma FastExp_loop_fold:
  "0 \<le> i \<Longrightarrow> i \<le> len \<Longrightarrow>
   FastExp_loop t len i x = \<lparr>iteration = len,
     X = fold (\<lambda>k y. gw_square (fe_N t) (fe_x0 t) y (Giant_bit (fe_exp t) (len - int k - 1)))
           [nat i..<nat len] x\<rparr>"
proof (induction t len i x rule: FastExp_loop.induct)
  case (1 t len i x)
  show ?case
  proof (cases "i < len")
    case True
    have "nat i < nat len" using True 1(2) by simp
    then have "[nat i..<nat len] = nat i # [Suc (nat i)..<nat len]"
      by (rule upt_conv_Cons)
    moreover have "Suc (nat i) = nat (i + 1)" using 1(2) by simp
    ultimately have u: "[nat i..<nat len] = nat i # [nat (i + 1)..<nat len]" by simp
    have ni: "int (nat i) = i" using 1(2) by simp
    have ih: "FastExp_loop t len (i + 1)
        (gw_square (fe_N t) (fe_x0 t) x (Giant_bit (fe_exp t) (len - i - 1)))
      = \<lparr>iteration = len,
     X = fold (\<lambda>k y. gw_square (fe_N t) (fe_x0 t) y (Giant_bit (fe_exp t) (len - int k - 1)))
           [nat (i + 1)..<nat len]
           (gw_square (fe_N t) (fe_x0 t) x (Giant_bit (fe_exp t) (len - i - 1)))\<rparr>"
      using 1 True by simp
    show ?thesis
      by (subst FastExp_loop.simps) (simp only: True if_True ih u fold_simps ni)
  next
    case False
    then have "nat len \<le> nat i" using 1 by simp
    then have "[nat i..<nat len] = []" by simp
    moreover have "i = len" using False 1 by simp
    ultimately show ?thesis by (subst FastExp_loop.simps) simp
  qed
qed

declare SlowExp_loop.simps [simp del]
lemma SlowExp_step_pow:
  "(if b then gw_mul N (gw_square N 1 (y ^ a mod N) False) (y mod N)
    else gw_square N 1 (y ^ a mod N) False)
   = y ^ (2 * a + (if b then 1 else 0)) mod N"
proof -
  have sq: "(y ^ a mod N) * (y ^ a mod N) mod N = y ^ (2 * a) mod N"
    by (simp add: mod_mult_eq mult_2 power_add)
  show ?thesis
  proof (cases b)
    case True
    have "((y ^ a mod N) * (y ^ a mod N) mod N) * (y mod N) mod N
        = y ^ (2 * a) * y mod N"
      unfolding sq by (rule mod_mult_eq)
    then show ?thesis using True by (simp add: gw_square_def gw_mul_def mult.commute)
  next
    case False
    then show ?thesis using sq by (simp add: gw_square_def)
  qed
qed

lemma SlowExp_loop_pow:
  "0 \<le> i \<Longrightarrow> i \<le> len \<Longrightarrow> X0 = se_X0 t mod se_N t \<Longrightarrow>
   x = se_X0 t ^ (se_exp t div 2 ^ nat (len - i)) mod se_N t \<Longrightarrow>
   SlowExp_loop t X0 len i x = \<lparr>iteration = len, X = se_X0 t ^ se_exp t mod se_N t\<rparr>"
proof (induction t X0 len i x rule: SlowExp_loop.induct)
  case (1 t X0 len i x)
  show ?case
  proof (cases "i < len")
    case True
    define k where "k = nat (len - (i + 1))"
    have k: "nat (len - i) = Suc k" "nat (len - i - 1) = k" using True by (simp_all add: k_def)
    define x2 where "x2 = (if Giant_bit (se_exp t) (len - i - 1)
        then gw_mul (se_N t) (gw_square (se_N t) 1 x False) X0
        else gw_square (se_N t) 1 x False)"
    have x2: "x2 = se_X0 t ^ (se_exp t div 2 ^ k) mod se_N t"
      unfolding x2_def 1(5) 1(4) SlowExp_step_pow Giant_bit_def k
      using div_pow2_step [of "se_exp t" k] by simp
    have "SlowExp_loop t X0 len (i + 1) x2
        = \<lparr>iteration = len, X = se_X0 t ^ se_exp t mod se_N t\<rparr>"
      using 1(1) [OF True refl, of x2] 1(2,3,4) True x2
      by (simp add: x2_def k_def Let_def)
    then show ?thesis
      by (subst SlowExp_loop.simps) (simp only: True if_True Let_def x2_def [symmetric])
  next
    case False
    with 1 show ?thesis by (subst SlowExp_loop.simps) simp
  qed
qed

section \<open>Properties of FastExp and SlowExp\<close>

text \<open>
  Claim C1 (as amended). For every modulus \<open>N\<close>, every base \<open>x0 \<le> maxmulbyconst\<close> and
  every exponent \<open>e \<ge> 1\<close>, a fresh \<^verbatim>\<open>FastExp\<close> run ends at iteration
  \<open>bitlen e - 1\<close> with the residue \<open>x0 ^ e mod N\<close>, and this residue is the result of
  exactly \<open>bitlen e - 1\<close> left-to-right steps, step \<open>k\<close> squaring the residue and fusing
  the multiplication by \<open>x0\<close> when bit \<open>len - k - 1\<close> of \<open>e\<close> is set.
\<close>

theorem FastExp_binary_pow:
  assumes "x0 \<le> maxmulbyconst" and "1 \<le> e"
  shows "FastExp_run N maxmulbyconst e None x0
           = Inr \<lparr>iteration = Giant_bitlen e - 1, X = x0 ^ e mod N\<rparr>
       \<and> x0 ^ e mod N
           = fold (\<lambda>k y. gw_square N x0 y (Giant_bit e (Giant_bitlen e - 1 - int k - 1)))
               [0..<nat (Giant_bitlen e - 1)] (x0 mod N)"
proof -
  define t where "t = \<lparr>fe_N = N, fe_exp = e, fe_x0 = x0,
                fe_iterations = Giant_bitlen e - 1, fe_state = None\<rparr>"
  have len: "0 \<le> Giant_bitlen e - 1" using assms(2) Giant_bitlen_pos [of e] by simp
  have top: "e div 2 ^ nat (Giant_bitlen e - 1) = 1" using assms(2) by (intro Giant_top) simp
  have a: "FastExp_loop t (Giant_bitlen e - 1) 0 (x0 mod N)
      = \<lparr>iteration = Giant_bitlen e - 1, X = x0 ^ e mod N\<rparr>"
    using FastExp_loop_pow [of 0 "Giant_bitlen e - 1" "x0 mod N" t] len top
    by (simp add: t_def)
  have b: "FastExp_loop t (Giant_bitlen e - 1) 0 (x0 mod N)
      = \<lparr>iteration = Giant_bitlen e - 1,
         X = fold (\<lambda>k y. gw_square N x0 y (Giant_bit e (Giant_bitlen e - 1 - int k - 1)))
               [0..<nat (Giant_bitlen e - 1)] (x0 mod N)\<rparr>"
    using FastExp_loop_fold [of 0 "Giant_bitlen e - 1" t "x0 mod N"] len
    by (simp add: t_def)
  have "FastExp_run N maxmulbyconst e None x0
      = Inr (FastExp_loop t (Giant_bitlen e - 1) 0 (x0 mod N))"
    using assms(1)
    by (simp add: FastExp_run_def FastExp_init_def FastExp_execute_def gw_assign_def t_def)
  with a b show ?thesis by simp
qed

theorem FastExp_binary_pow_witness:
  "(3::nat) \<le> 255 \<and> (1::nat) \<le> 17
   \<and> FastExp_run 1009 255 17 None 3 = Inr \<lparr>iteration = Giant_bitlen 17 - 1, X = 3 ^ 17 mod 1009\<rparr>"
  using FastExp_binary_pow [of 3 255 17 1009] by simp

text \<open>
  With the exponent 0 the iteration count is \<open>-1\<close>, the loop body never runs and the
  residue stays \<open>x0\<close>, which is not \<open>x0 ^ 0 mod N\<close>.
\<close>

theorem FastExp_zero_exponent:
  "FastExp_run 1009 255 0 None 3 = Inr \<lparr>iteration = 0, X = 3\<rparr> \<and> (3::nat) ^ 0 mod 1009 \<noteq> 3"
  by (simp add: FastExp_run_def FastExp_init_def FastExp_execute_def gw_assign_def
      Giant_bitlen.simps FastExp_loop.simps)

text \<open>
  Claim C9 (as amended). With modulus 1009, base 3 and exponent 17 a fresh
  \<^verbatim>\<open>FastExp\<close> run ends with the residue 271, which is \<open>3 ^ 17 mod 1009\<close> and
  \<open>129140163 mod 1009\<close>.
\<close>

theorem FastExp_scenario_271:
  "FastExp_run 1009 255 17 None 3 = Inr \<lparr>iteration = 4, X = 271\<rparr>
   \<and> (3::nat) ^ 17 mod 1009 = 271 \<and> (129140163::nat) mod 1009 = 271"
  by (simp add: FastExp_run_def FastExp_init_def FastExp_execute_def gw_assign_def
      Giant_bitlen.simps FastExp_loop.simps gw_square_def Giant_bit_def)

text \<open>The residue of that run is not 466.\<close>

theorem FastExp_scenario_not_466:
  "X (FastExp_execute \<lparr>fe_N = 1009, fe_exp = 17, fe_x0 = 3, fe_iterations = 4, fe_state = None\<rparr>) \<noteq> 466"
  by (simp add: FastExp_execute_def gw_assign_def
      FastExp_loop.simps gw_square_def Giant_bit_def)

text \<open>
  Claim C7 (as amended). For every modulus \<open>N\<close>, every base \<open>X0\<close> and every exponent
  \<open>e \<ge> 1\<close>, a fresh \<^verbatim>\<open>SlowExp\<close> run ends at iteration \<open>bitlen e - 1\<close> with the
  residue \<open>X0 ^ e mod N\<close>; its loop squares the residue and then multiplies it by
  \<open>X0\<close> when the exponent bit is set.
\<close>

theorem SlowExp_binary_pow:
  assumes "1 \<le> e"
  shows "SlowExp_run N e None X0 = \<lparr>iteration = Giant_bitlen e - 1, X = X0 ^ e mod N\<rparr>"
proof -
  define t where "t = \<lparr>se_N = N, se_exp = e, se_X0 = X0,
      se_iterations = Giant_bitlen e - 1, se_state = None\<rparr>"
  have len: "0 \<le> Giant_bitlen e - 1" using assms Giant_bitlen_pos [of e] by simp
  have top: "e div 2 ^ nat (Giant_bitlen e - 1) = 1" using assms by (intro Giant_top) simp
  have sel: "se_N t = N" "se_exp t = e" "se_X0 t = X0" "se_iterations t = Giant_bitlen e - 1"
    "se_state t = None" by (simp_all add: t_def)
  have p3: "X0 mod N = se_X0 t mod se_N t" by (simp add: sel)
  have p4: "X0 mod N = se_X0 t ^ (se_exp t div 2 ^ nat (Giant_bitlen e - 1 - 0)) mod se_N t"
    by (simp add: sel top)
  have "SlowExp_loop t (X0 mod N) (Giant_bitlen e - 1) 0 (X0 mod N)
      = \<lparr>iteration = Giant_bitlen e - 1, X = se_X0 t ^ se_exp t mod se_N t\<rparr>"
    using len by (intro SlowExp_loop_pow p3 p4) simp_all
  then have "SlowExp_loop t (X0 mod N) (Giant_bitlen e - 1) 0 (X0 mod N)
      = \<lparr>iteration = Giant_bitlen e - 1, X = X0 ^ e mod N\<rparr>"
    by (simp only: sel)
  moreover have "SlowExp_run N e None X0
      = SlowExp_loop t (X0 mod N) (Giant_bitlen e - 1) 0 (X0 mod N)"
    unfolding SlowExp_run_def SlowExp_init_def t_def [symmetric] SlowExp_execute_def
    by (simp add: sel gw_assign_def Let_def)
  ultimately show ?thesis by simp
qed

theorem SlowExp_binary_pow_witness:
  "(1::nat) \<le> 23 \<and> SlowExp_run 1009 23 None 17 = \<lparr>iteration = Giant_bitlen 23 - 1, X = 17 ^ 23 mod 1009\<rparr>"
  using SlowExp_binary_pow [of 23 1009 17] by simp

text \<open>With the exponent 0 the loop body never runs and the residue stays \<open>X0\<close>.\<close>

theorem SlowExp_zero_exponent:
  "SlowExp_run 1009 0 None 17 = \<lparr>iteration = 0, X = 17\<rparr> \<and> (17::nat) ^ 0 mod 1009 \<noteq> 17"
  by (simp add: SlowExp_run_def SlowExp_init_def SlowExp_execute_def gw_assign_def
      Giant_bitlen.simps SlowExp_loop.simps)

section \<open>The block sizes of the Gerbicz check\<close>

text \<open>
  \<^verbatim>\<open>Gerbicz_params(iters, log2b, L, L2)\<close> overwrites \<^verbatim>\<open>log2b\<close> with 1, so that
  \<^verbatim>\<open>iters/log2b\<close> is \<^verbatim>\<open>iters\<close> and \<^verbatim>\<open>2*iters/log2b\<close> is \<^verbatim>\<open>2*iters\<close>; both
  are integers that a \<^verbatim>\<open>double\<close> holds exactly. The source's \<^verbatim>\<open>int\<close> values are
  modelled by unbounded integers: for \<open>1 \<le> iters \<le> 1073697800\<close> neither \<^verbatim>\<open>2*iters\<close> nor
  any \<^verbatim>\<open>i*i\<close> the loop evaluates leaves the range of a 32-bit \<^verbatim>\<open>int\<close>. All
  operands of \<^verbatim>\<open>%\<close> are positive there, where C's remainder is \<open>mod\<close>.
\<close>

lemma int_le_square: "(x::int) \<le> x * x"
proof (cases "1 \<le> x")
  case True
  then have "x * 1 \<le> x * x" by (intro mult_left_mono) simp_all
  then show ?thesis by simp
next
  case False
  then have "x \<le> 0" by simp
  also have "0 \<le> x * x" by simp
  finally show ?thesis .
qed

text \<open>Modelled from the spec: \<^verbatim>\<open>(int)sqrt(x)\<close> of the C library on a non-negative
  integer, the integer part of the square root (\<open>int_sqrt_floor\<close> below), found by
  counting up from 0.\<close>

function int_sqrt_from :: "int \<Rightarrow> int \<Rightarrow> int" where
  "int_sqrt_from n k = (if (k + 1) * (k + 1) \<le> n then int_sqrt_from n (k + 1) else k)"
  by pat_completeness auto
termination
proof (relation "measure (\<lambda>(n, k). nat (n - k))")
  show "wf (measure (\<lambda>(n, k). nat (n - k)))" by simp
next
  fix n k :: int
  assume "(k + 1) * (k + 1) \<le> n"
  then have "k + 1 \<le> n" using int_le_square [of "k + 1"] by linarith
  then show "((n, k + 1), (n, k)) \<in> measure (\<lambda>(n, k). nat (n - k))" by simp
qed

declare int_sqrt_from.simps [simp del]

definition int_sqrt :: "int \<Rightarrow> int" where
  "int_sqrt n = int_sqrt_from n 0"




lemma int_sqrt_from_spec:
  "0 \<le> k \<Longrightarrow> k * k \<le> n \<Longrightarrow>
   k \<le> int_sqrt_from n k \<and> int_sqrt_from n k * int_sqrt_from n k \<le> n
   \<and> n < (int_sqrt_from n k + 1) * (int_sqrt_from n k + 1)"
proof (induction n k rule: int_sqrt_from.induct)
  case (1 n k)
  show ?case
  proof (cases "(k + 1) * (k + 1) \<le> n")
    case True
    have "int_sqrt_from n k = int_sqrt_from n (k + 1)"
      by (subst int_sqrt_from.simps) (simp only: True if_True)
    moreover have "k + 1 \<le> int_sqrt_from n (k + 1) \<and>
        int_sqrt_from n (k + 1) * int_sqrt_from n (k + 1) \<le> n \<and>
        n < (int_sqrt_from n (k + 1) + 1) * (int_sqrt_from n (k + 1) + 1)"
      using 1(1) [OF True] 1(2) True by simp
    ultimately show ?thesis by simp
  next
    case False
    have "int_sqrt_from n k = k"
      by (subst int_sqrt_from.simps) (simp only: False if_False)
    with False 1 show ?thesis by simp
  qed
qed

lemma int_sqrt_spec:
  assumes "0 \<le> n"
  shows "0 \<le> int_sqrt n" and "int_sqrt n * int_sqrt n \<le> n"
    and "n < (int_sqrt n + 1) * (int_sqrt n + 1)"
  using int_sqrt_from_spec [of 0 n] assms by (simp_all add: int_sqrt_def)


lemma int_sqrt_floor: "0 \<le> n \<Longrightarrow> int_sqrt n = \<lfloor>sqrt (real_of_int n)\<rfloor>"
proof -
  assume n: "0 \<le> n"
  define k where "k = int_sqrt n"
  have k: "0 \<le> k" "k * k \<le> n" "n < (k + 1) * (k + 1)"
    using int_sqrt_spec [OF n] by (simp_all add: k_def)
  have "real_of_int (k * k) \<le> real_of_int n" using k(2) by (simp only: of_int_le_iff)
  then have "(real_of_int k)\<^sup>2 \<le> real_of_int n" by (simp add: power2_eq_square)
  then have lo: "real_of_int k \<le> sqrt (real_of_int n)"
    using k(1) by (simp add: real_le_rsqrt)
  have "real_of_int n < real_of_int ((k + 1) * (k + 1))" using k(3) by (simp only: of_int_less_iff)
  then have "real_of_int n < (real_of_int (k + 1))\<^sup>2" by (simp add: power2_eq_square)
  then have hi: "sqrt (real_of_int n) < real_of_int (k + 1)"
    using k(1) by (intro real_less_lsqrt) simp_all
  have "\<lfloor>sqrt (real_of_int n)\<rfloor> = k"
    using lo hi by (simp add: floor_eq_iff)
  then show ?thesis by (simp add: k_def)
qed




section \<open>Sliding-window exponentiation\<close>

text \<open>
  The cost model of the window search, \<^verbatim>\<open>(1 << (W - 1)) + len*(1 + 1/(W + 1.0))\<close>. The
  source evaluates it in \<^verbatim>\<open>double\<close> arithmetic; here it is a real number, so the
  rounding of the floating-point operations is not part of the model.
\<close>

definition window_cost :: "int \<Rightarrow> int \<Rightarrow> real" where
  "window_cost W len = 2 ^ nat (W - 1) + real_of_int len * (1 + 1 / (real_of_int W + 1))"

lemma window_cost_decreases:
  assumes "2 \<le> W" and "window_cost (W + 1) len < window_cost W len"
  shows "W < len"
proof (rule ccontr)
  assume "\<not> W < len"
  then have le: "len \<le> W" by simp
  have W: "0 < real_of_int W + 1" "0 < real_of_int W + 2" using assms(1) by simp_all
  have p: "nat (W + 1 - 1) = Suc (nat (W - 1))" using assms(1) by simp
  have "(2::real) ^ nat (W - 1) \<ge> 1" by simp
  have d: "1 / (real_of_int W + 1) - 1 / (real_of_int W + 2)
      = 1 / ((real_of_int W + 1) * (real_of_int W + 2))"
    using W by (simp add: field_simps)
  have "window_cost W len - window_cost (W + 1) len
      = real_of_int len * (1 / (real_of_int W + 1) - 1 / (real_of_int W + 2)) - 2 ^ nat (W - 1)"
    unfolding window_cost_def p by (simp add: algebra_simps)
  then have gt: "real_of_int len * (1 / ((real_of_int W + 1) * (real_of_int W + 2))) > 2 ^ nat (W - 1)"
    using assms(2) unfolding d by simp
  have D: "0 < (real_of_int W + 1) * (real_of_int W + 2)" using W by simp
  have "real_of_int len \<le> real_of_int W" using le by simp
  also have "\<dots> \<le> (real_of_int W + 1) * (real_of_int W + 2)"
    using assms(1) by (simp add: algebra_simps)
  finally have "real_of_int len / ((real_of_int W + 1) * (real_of_int W + 2)) \<le> 1"
    using D by (simp only: pos_divide_le_eq mult_1)
  with gt \<open>(2::real) ^ nat (W - 1) \<ge> 1\<close> show False by simp
qed

text \<open>The search \<^verbatim>\<open>for (W = 2; (W < _W || _W == -1) && ((1 << (W + 1)) <= _max_size ||
  _max_size == -1) && cost(W) > cost(W + 1); W++);\<close> from the current \<^verbatim>\<open>W\<close>.\<close>

function choose_W :: "int \<Rightarrow> int \<Rightarrow> int \<Rightarrow> int \<Rightarrow> int" where
  "choose_W W_max max_size len W =
     (if (W < W_max \<or> W_max = -1) \<and> (2 ^ nat (W + 1) \<le> max_size \<or> max_size = -1)
         \<and> window_cost W len > window_cost (W + 1) len
      then choose_W W_max max_size len (W + 1) else W)"
  by pat_completeness auto
termination
proof (relation "measure (\<lambda>(W_max, max_size, len, W). nat (max len 2 + 1 - W))")
  show "wf (measure (\<lambda>(W_max, max_size, len, W). nat (max len 2 + 1 - W)))" by simp
next
  fix W_max max_size len W :: int
  assume a: "(W < W_max \<or> W_max = - 1) \<and> (2 ^ nat (W + 1) \<le> max_size \<or> max_size = - 1)
      \<and> window_cost (W + 1) len < window_cost W len"
  have "W < max len 2 + 1"
  proof (cases "2 \<le> W")
    case True
    then have "W < len" using a by (intro window_cost_decreases) simp_all
    then show ?thesis by simp
  next
    case False
    then show ?thesis by simp
  qed
  then show "((W_max, max_size, len, W + 1), (W_max, max_size, len, W))
      \<in> measure (\<lambda>(W_max, max_size, len, W). nat (max len 2 + 1 - W))" by simp
qed

declare choose_W.simps [simp del]

text \<open>\<^verbatim>\<open>_U[k]\<close>: reading the table outside its size is undefined in the source and has
  no value here.\<close>

definition U_get :: "GWNum list \<Rightarrow> int \<Rightarrow> GWNum option" where
  "U_get U k = (if 0 \<le> k \<and> k < int (length U) then Some (U ! nat k) else None)"

text \<open>The loop that fills the table of the odd powers, from \<^verbatim>\<open>i = 1\<close>;
  \<^verbatim>\<open>emplace_back\<close> appends a fresh residue, which is written before it is read.\<close>

function sw_table :: "nat \<Rightarrow> int \<Rightarrow> int \<Rightarrow> GWNum \<Rightarrow> GWNum list \<Rightarrow> GWNum list option" where
  "sw_table N W i x U =
     (if i < 2 ^ nat (W - 1)
      then (let U1 = (if int (length U) \<le> i then U @ [0] else U) in
            case U_get U1 (i - 1) of
              None \<Rightarrow> None
            | Some u \<Rightarrow>
                if 0 \<le> i \<and> i < int (length U1)
                then sw_table N W (i + 1) x (U1[nat i := gw_mul N x u])
                else None)
      else Some U)"
  by pat_completeness auto
termination
  by (relation "measure (\<lambda>(N, W, i, x, U). nat (2 ^ nat (W - 1) - i))") auto

declare sw_table.simps [simp del]

text \<open>\<^verbatim>\<open>for (; exp.bit(j) == 0; j++);\<close>\<close>

partial_function (option) sw_scan :: "Giant \<Rightarrow> int \<Rightarrow> int option" where
  "sw_scan e j = (if \<not> Giant_bit e j then sw_scan e (j + 1) else Some j)"

text \<open>The window at the top of the exponent: the bits \<^verbatim>\<open>i..j\<close> are read into
  \<^verbatim>\<open>ui\<close>.\<close>

function sw_read :: "Giant \<Rightarrow> int \<Rightarrow> int \<Rightarrow> int \<Rightarrow> int \<times> int" where
  "sw_read e j i ui =
     (if i \<ge> j
      then sw_read e j (i - 1) (2 * ui + (if Giant_bit e i then 1 else 0))
      else (i, ui))"
  by pat_completeness auto
termination
  by (relation "measure (\<lambda>(e, j, i, ui). nat (i - j + 1))") auto

declare sw_read.simps [simp del]

text \<open>A window below the top: a squaring for every bit read.\<close>

function sw_square_read :: "nat \<Rightarrow> Giant \<Rightarrow> int \<Rightarrow> int \<Rightarrow> int \<Rightarrow> GWNum \<Rightarrow> int \<times> int \<times> GWNum" where
  "sw_square_read N e j i ui x =
     (if i \<ge> j
      then sw_square_read N e j (i - 1) (2 * ui + (if Giant_bit e i then 1 else 0))
             (gw_square N 1 x False)
      else (i, ui, x))"
  by pat_completeness auto
termination
  by (relation "measure (\<lambda>(N, e, j, i, ui, x). nat (i - j + 1))") auto

declare sw_square_read.simps [simp del]

text \<open>The \<^verbatim>\<open>while (i >= 0)\<close> loop of \<^verbatim>\<open>sliding_window\<close>.\<close>

partial_function (option) sw_loop ::
  "nat \<Rightarrow> int \<Rightarrow> Giant \<Rightarrow> int \<Rightarrow> GWNum list \<Rightarrow> int \<Rightarrow> GWNum \<Rightarrow> GWNum option" where
  "sw_loop N W e len U i x =
     (if i \<ge> 0
      then
        if \<not> Giant_bit e i
        then sw_loop N W e len U (i - 1) (gw_square N 1 x False)
        else
          case sw_scan e (if i - W + 1 < 0 then 0 else i - W + 1) of
            None \<Rightarrow> None
          | Some j \<Rightarrow>
              if i = len
              then (case sw_read e j i 0 of
                      (i', ui) \<Rightarrow>
                        (case U_get U (ui div 2) of
                           None \<Rightarrow> None
                         | Some u \<Rightarrow> sw_loop N W e len U i' u))
              else (case sw_square_read N e j i 0 x of
                      (i', ui, x') \<Rightarrow>
                        (case U_get U (ui div 2) of
                           None \<Rightarrow> None
                         | Some u \<Rightarrow> sw_loop N W e len U i' (gw_mul N u x')))
      else Some x)"

text \<open>\<^verbatim>\<open>MultipointExp::sliding_window\<close> on the members \<^verbatim>\<open>_W\<close>, \<^verbatim>\<open>_max_size\<close>,
  \<^verbatim>\<open>_U\<close> and the residue \<^verbatim>\<open>X()\<close>; it returns the new table and residue.\<close>

definition sliding_window ::
  "nat \<Rightarrow> int \<Rightarrow> int \<Rightarrow> Giant \<Rightarrow> GWNum list \<times> GWNum \<Rightarrow> (GWNum list \<times> GWNum) option" where
  "sliding_window N W_max max_size e = (\<lambda>(U, x).
     let len = Giant_bitlen e - 1;
         W = choose_W W_max max_size len 2;
         U0 = (if length U \<le> 0 then U @ [0] else U);
         U1 = U0[0 := x];
         x1 = gw_square N 1 (U1 ! 0) False
     in case sw_table N W 1 x1 U1 of
          None \<Rightarrow> None
        | Some U2 \<Rightarrow>
            (case sw_loop N W e len U2 len x1 of
               None \<Rightarrow> None
             | Some x2 \<Rightarrow> Some (U2, x2)))"

lemma choose_W_ge: "W \<le> choose_W W_max max_size len W"
proof (induction W_max max_size len W rule: choose_W.induct)
  case (1 W_max max_size len W)
  show ?case
  proof (cases "(W < W_max \<or> W_max = -1) \<and> (2 ^ nat (W + 1) \<le> max_size \<or> max_size = -1)
         \<and> window_cost W len > window_cost (W + 1) len")
    case True
    then have "choose_W W_max max_size len W = choose_W W_max max_size len (W + 1)"
      by (subst choose_W.simps) (simp only: if_True simp_thms)
    moreover have "W + 1 \<le> choose_W W_max max_size len (W + 1)" using 1 True by simp
    ultimately show ?thesis by simp
  next
    case False
    then have "choose_W W_max max_size len W = W"
      by (subst choose_W.simps) (simp only: if_False)
    then show ?thesis by simp
  qed
qed

lemma pow_mod_mult: "(x ^ a mod N) * (x ^ b mod N) mod N = x ^ (a + b) mod (N::nat)"
  by (simp add: mod_mult_eq power_add)

lemma gw_mul_pow: "gw_mul N (x ^ a mod N) (x ^ b mod N) = x ^ (a + b) mod N"
  by (simp add: gw_mul_def pow_mod_mult)

lemma gw_square_plain: "gw_square N c (x ^ a mod N) False = x ^ (2 * a) mod N"
  by (simp add: gw_square_def pow_mod_mult mult_2)

lemma mod_pow2_Suc:
  "(a::nat) mod 2 ^ Suc m = (if odd (a div 2 ^ m) then 2 ^ m else 0) + a mod 2 ^ m"
proof -
  have "a mod (2 ^ m * 2) = 2 ^ m * (a div 2 ^ m mod 2) + a mod 2 ^ m"
    by (rule mod_mult2_eq)
  then show ?thesis by (simp add: mult.commute odd_iff_mod_2_eq_one)
qed

lemma div_pow2_add: "(e::nat) div 2 ^ (j + m) = e div 2 ^ j div 2 ^ m"
  by (simp add: power_add div_mult2_eq)

lemma sw_table_correct:
  assumes "1 \<le> i" and "i \<le> int (length U)" and "i \<le> 2 ^ nat (W - 1)"
    and "\<And>k. k < nat i \<Longrightarrow> U ! k = x ^ (2 * k + 1) mod N"
    and "x1 = x ^ 2 mod N"
  shows "\<exists>U'. sw_table N W i x1 U = Some U' \<and> 2 ^ nat (W - 1) \<le> int (length U')
    \<and> (\<forall>k. int k < 2 ^ nat (W - 1) \<longrightarrow> U' ! k = x ^ (2 * k + 1) mod N)"
  using assms
proof (induction N W i x1 U rule: sw_table.induct)
  case (1 N W i x1 U)
  show ?case
  proof (cases "i < 2 ^ nat (W - 1)")
    case True
    define U1 where "U1 = (if int (length U) \<le> i then U @ [0] else U)"
    have len1: "i < int (length U1)" using "1.prems"(2) by (simp add: U1_def)
    have old: "\<And>k. k < nat i \<Longrightarrow> U1 ! k = x ^ (2 * k + 1) mod N"
      using "1.prems"(1,2,4) by (simp add: U1_def nth_append)
    define u where "u = x ^ (2 * nat (i - 1) + 1) mod N"
    have get: "U_get U1 (i - 1) = Some u"
      using "1.prems"(1) len1 old [of "nat (i - 1)"] by (simp add: U_get_def u_def)
    define U2 where "U2 = U1[nat i := gw_mul N x1 u]"
    have new: "gw_mul N x1 u = x ^ (2 * nat i + 1) mod N"
    proof -
      have "2 + (2 * nat (i - 1) + 1) = 2 * nat i + 1" using "1.prems"(1) by simp
      then show ?thesis unfolding u_def "1.prems"(5) gw_mul_pow by simp
    qed
    have len2: "i + 1 \<le> int (length U2)" using len1 by (simp add: U2_def)
    have all2: "\<And>k. k < nat (i + 1) \<Longrightarrow> U2 ! k = x ^ (2 * k + 1) mod N"
    proof -
      fix k assume k: "k < nat (i + 1)"
      show "U2 ! k = x ^ (2 * k + 1) mod N"
      proof (cases "k = nat i")
        case True
        then show ?thesis using len1 "1.prems"(1) new by (simp add: U2_def)
      next
        case False
        then have "k < nat i" using k "1.prems"(1) by simp
        then show ?thesis using old False by (simp add: U2_def)
      qed
    qed
    have step: "sw_table N W i x1 U = sw_table N W (i + 1) x1 U2"
      using "1.prems"(1) len1
      by (subst sw_table.simps) (simp add: True U1_def [symmetric] get U2_def Let_def)
    have ih: "\<exists>U'. sw_table N W (i + 1) x1 U2 = Some U' \<and> 2 ^ nat (W - 1) \<le> int (length U')
        \<and> (\<forall>k. int k < 2 ^ nat (W - 1) \<longrightarrow> U' ! k = x ^ (2 * k + 1) mod N)"
    proof (unfold U2_def, rule "1.IH" [OF True U1_def get _ _ _ _ all2 [unfolded U2_def] "1.prems"(5)])
      show "0 \<le> i \<and> i < int (length U1)" using "1.prems"(1) len1 by simp
      show "1 \<le> i + 1" using "1.prems"(1) by simp
      show "i + 1 \<le> int (length (U1[nat i := gw_mul N x1 u]))" using len2 by (simp add: U2_def)
      show "i + 1 \<le> 2 ^ nat (W - 1)" using True by simp
    qed
    show ?thesis unfolding step by (rule ih)
  next
    case False
    then have eq: "i = 2 ^ nat (W - 1)" using "1.prems"(3) by simp
    have "sw_table N W i x1 U = Some U"
      by (subst sw_table.simps) (simp only: False if_False)
    moreover have "\<forall>k. int k < 2 ^ nat (W - 1) \<longrightarrow> U ! k = x ^ (2 * k + 1) mod N"
      using "1.prems"(4) eq [symmetric] "1.prems"(1) by (simp add: zless_nat_eq_int_zless)
    ultimately show ?thesis using "1.prems"(2) eq by simp
  qed
qed

lemma sw_scan_finds:
  "j0 \<le> i \<Longrightarrow> Giant_bit e i \<Longrightarrow>
   \<exists>j. sw_scan e j0 = Some j \<and> j0 \<le> j \<and> j \<le> i \<and> Giant_bit e j"
proof (induction "nat (i - j0)" arbitrary: j0)
  case 0
  then have "j0 = i" by simp
  then have "sw_scan e j0 = Some j0" using 0 by (subst sw_scan.simps) simp
  then show ?case using \<open>j0 = i\<close> 0 by simp
next
  case (Suc n)
  show ?case
  proof (cases "Giant_bit e j0")
    case True
    then have "sw_scan e j0 = Some j0" by (subst sw_scan.simps) simp
    then show ?thesis using True Suc.prems by simp
  next
    case False
    then have step: "sw_scan e j0 = sw_scan e (j0 + 1)" by (subst sw_scan.simps) simp
    have "j0 \<noteq> i" using False Suc.prems by auto
    then have le: "j0 + 1 \<le> i" using Suc.prems by simp
    have n: "n = nat (i - (j0 + 1))" using Suc.hyps(2) by simp
    obtain j where "sw_scan e (j0 + 1) = Some j" "j0 + 1 \<le> j" "j \<le> i" "Giant_bit e j"
      using Suc.hyps(1) [OF n le Suc.prems(2)] by blast
    then show ?thesis unfolding step by auto
  qed
qed

lemma Giant_bit_window:
  assumes "0 \<le> j" and "j \<le> i"
  shows "Giant_bit e i = odd (e div 2 ^ nat j div 2 ^ nat (i - j))"
proof -
  have "nat i = nat j + nat (i - j)" using assms by simp
  then show ?thesis unfolding Giant_bit_def by (simp only: div_pow2_add)
qed

lemma sw_read_value:
  "0 \<le> j \<Longrightarrow> j \<le> i + 1 \<Longrightarrow>
   sw_read e j i ui
     = (j - 1, ui * 2 ^ nat (i - j + 1) + int (e div 2 ^ nat j mod 2 ^ nat (i - j + 1)))"
proof (induction e j i ui rule: sw_read.induct)
  case (1 e j i ui)
  show ?case
  proof (cases "i \<ge> j")
    case True
    define m where "m = nat (i - j)"
    define b :: int where "b = (if Giant_bit e i then 1 else 0)"
    have m: "nat (i - j + 1) = Suc m" "nat (i - 1 - j + 1) = m" using True by (simp_all add: m_def)
    have bit: "Giant_bit e i = odd (e div 2 ^ nat j div 2 ^ m)"
      unfolding m_def using "1.prems"(1) True by (rule Giant_bit_window)
    have ih: "sw_read e j (i - 1) (2 * ui + b)
        = (j - 1, (2 * ui + b) * 2 ^ m + int (e div 2 ^ nat j mod 2 ^ m))"
      using "1.IH" [OF True "1.prems"(1)] True m(2) by (simp add: b_def)
    have "(2 * ui + b) * 2 ^ m + int (e div 2 ^ nat j mod 2 ^ m)
        = ui * 2 ^ Suc m + int (e div 2 ^ nat j mod 2 ^ Suc m)"
      unfolding mod_pow2_Suc [of "e div 2 ^ nat j" m] b_def bit
      by (simp add: algebra_simps)
    with ih have "sw_read e j (i - 1) (2 * ui + b)
        = (j - 1, ui * 2 ^ Suc m + int (e div 2 ^ nat j mod 2 ^ Suc m))" by simp
    then show ?thesis
      by (subst sw_read.simps) (simp only: True if_True m(1) b_def)
  next
    case False
    then have "i = j - 1" using "1.prems"(2) by simp
    then show ?thesis by (subst sw_read.simps) simp
  qed
qed

lemma sw_square_read_value:
  "0 \<le> j \<Longrightarrow> j \<le> i + 1 \<Longrightarrow> x = x0 ^ a mod N \<Longrightarrow>
   sw_square_read N e j i ui x
     = (j - 1, ui * 2 ^ nat (i - j + 1) + int (e div 2 ^ nat j mod 2 ^ nat (i - j + 1)),
        x0 ^ (a * 2 ^ nat (i - j + 1)) mod N)"
proof (induction N e j i ui x arbitrary: a rule: sw_square_read.induct)
  case (1 N e j i ui x)
  show ?case
  proof (cases "i \<ge> j")
    case True
    define m where "m = nat (i - j)"
    define b :: int where "b = (if Giant_bit e i then 1 else 0)"
    have m: "nat (i - j + 1) = Suc m" "nat (i - 1 - j + 1) = m" using True by (simp_all add: m_def)
    have bit: "Giant_bit e i = odd (e div 2 ^ nat j div 2 ^ m)"
      unfolding m_def using "1.prems"(1) True by (rule Giant_bit_window)
    have sq: "gw_square N 1 x False = x0 ^ (2 * a) mod N"
      unfolding "1.prems"(3) by (rule gw_square_plain)
    have j1: "j \<le> i - 1 + 1" using True by simp
    have ih: "sw_square_read N e j (i - 1) (2 * ui + b) (gw_square N 1 x False)
        = (j - 1, (2 * ui + b) * 2 ^ m + int (e div 2 ^ nat j mod 2 ^ m),
           x0 ^ (2 * a * 2 ^ m) mod N)"
      using "1.IH" [OF True "1.prems"(1) j1 sq] m(2) by (simp add: b_def)
    have e1: "(2 * ui + b) * 2 ^ m + int (e div 2 ^ nat j mod 2 ^ m)
        = ui * 2 ^ Suc m + int (e div 2 ^ nat j mod 2 ^ Suc m)"
      unfolding mod_pow2_Suc [of "e div 2 ^ nat j" m] b_def bit
      by (simp add: algebra_simps)
    have e2: "x0 ^ (2 * a * 2 ^ m) = x0 ^ (a * 2 ^ Suc m)" by (simp add: mult_ac)
    have "sw_square_read N e j (i - 1) (2 * ui + b) (gw_square N 1 x False)
        = (j - 1, ui * 2 ^ Suc m + int (e div 2 ^ nat j mod 2 ^ Suc m),
           x0 ^ (a * 2 ^ Suc m) mod N)"
      unfolding e1 [symmetric] e2 [symmetric] by (rule ih)
    then show ?thesis
      by (subst sw_square_read.simps) (simp only: True if_True m(1) b_def)
  next
    case False
    then have "i = j - 1" using "1.prems"(2) by simp
    then show ?thesis using "1.prems"(3) by (subst sw_square_read.simps) simp
  qed
qed

lemma Giant_above_top: "0 < e \<Longrightarrow> e div 2 ^ nat (Giant_bitlen e - 1 + 1) = 0"
proof -
  assume e: "0 < e"
  have "1 \<le> Giant_bitlen e" using e by (rule Giant_bitlen_pos)
  then have "nat (Giant_bitlen e - 1 + 1) = Suc (nat (Giant_bitlen e - 1))" by simp
  then have "e div 2 ^ nat (Giant_bitlen e - 1 + 1) = e div 2 ^ nat (Giant_bitlen e - 1) div 2"
    by (simp only: div_pow2_Suc')
  then show ?thesis using Giant_top [OF e] by simp
qed

lemma U_get_odd_power:
  assumes table: "2 ^ nat (W - 1) \<le> int (length U)"
      "\<And>k. int k < 2 ^ nat (W - 1) \<Longrightarrow> U ! k = x0 ^ (2 * k + 1) mod N"
    and W: "1 \<le> W" and m: "m \<le> nat W" "m \<noteq> 0" and odd: "odd a"
  shows "U_get U (int (a mod 2 ^ m) div 2) = Some (x0 ^ (a mod 2 ^ m) mod N)"
proof -
  define u where "u = a mod 2 ^ m"
  have "(2::nat) dvd 2 ^ m" using m(2) by simp
  then have "u mod 2 = a mod 2" unfolding u_def by (rule mod_mod_cancel)
  then have uodd: "odd u" using odd by (simp add: odd_iff_mod_2_eq_one)
  have "u < 2 ^ m" by (simp add: u_def)
  also have "(2::nat) ^ m \<le> 2 ^ nat W" using m(1) by (simp add: power_increasing)
  finally have "u < 2 ^ nat W" .
  moreover have "nat W = Suc (nat (W - 1))" using W by simp
  ultimately have "u < 2 * 2 ^ nat (W - 1)" by simp
  then have lt: "u div 2 < 2 ^ nat (W - 1)" by simp
  then have lt': "int (u div 2) < 2 ^ nat (W - 1)"
    by (metis of_nat_less_iff of_nat_numeral of_nat_power)
  have idx: "int u div 2 = int (u div 2)" by simp
  have "2 * (u div 2) + 1 = u" using uodd by (simp add: odd_two_times_div_two_succ)
  then have "U ! (u div 2) = x0 ^ u mod N" using table(2) [OF lt'] by simp
  moreover have "int (u div 2) < int (length U)" using lt' table(1) by simp
  ultimately show ?thesis unfolding u_def [symmetric] idx U_get_def by simp
qed

lemma sw_loop_correct:
  assumes table: "2 ^ nat (W - 1) \<le> int (length U)"
      "\<And>k. int k < 2 ^ nat (W - 1) \<Longrightarrow> U ! k = x0 ^ (2 * k + 1) mod N"
    and W: "1 \<le> W" and e: "0 < e" and len: "len = Giant_bitlen e - 1"
  shows "- 1 \<le> i \<Longrightarrow> i \<le> len \<Longrightarrow> (i < len \<Longrightarrow> x = x0 ^ (e div 2 ^ nat (i + 1)) mod N) \<Longrightarrow>
     sw_loop N W e len U i x = Some (x0 ^ e mod N)"
proof (induction "nat (i + 1)" arbitrary: i x rule: less_induct)
  case less
  have top: "e div 2 ^ nat len = 1" "e div 2 ^ nat (len + 1) = 0"
    unfolding len using Giant_top [OF e] Giant_above_top [OF e] by simp_all
  have len0: "0 \<le> len" unfolding len using Giant_bitlen_pos [OF e] by simp
  show ?case
  proof (cases "i \<ge> 0")
    case False
    then have i: "i = - 1" using less.prems(1) by simp
    then have "x = x0 ^ e mod N" using less.prems(3) len0 by simp
    then show ?thesis using False by (subst sw_loop.simps) simp
  next
    case i0: True
    have suc: "nat (i + 1) = Suc (nat i)" using i0 by simp
    show ?thesis
    proof (cases "Giant_bit e i")
      case False
      have "i \<noteq> len" using False top(1) by (auto simp: Giant_bit_def)
      then have lt: "i < len" using less.prems(2) by simp
      have x: "x = x0 ^ (e div 2 ^ Suc (nat i)) mod N" using less.prems(3) [OF lt] suc by simp
      have "e div 2 ^ nat i = 2 * (e div 2 ^ Suc (nat i))"
        using div_pow2_step [of e "nat i"] False by (simp add: Giant_bit_def)
      then have sq: "gw_square N 1 x False = x0 ^ (e div 2 ^ nat (i - 1 + 1)) mod N"
        unfolding x gw_square_plain by simp
      have "sw_loop N W e len U (i - 1) (gw_square N 1 x False) = Some (x0 ^ e mod N)"
        using i0 lt sq by (intro less.hyps) simp_all
      then show ?thesis using i0 False by (subst sw_loop.simps) simp
    next
      case bit: True
      define j0 where "j0 = (if i - W + 1 < 0 then 0 else i - W + 1)"
      have j0: "0 \<le> j0" "j0 \<le> i" "i - W + 1 \<le> j0" using W i0 by (simp_all add: j0_def)
      obtain j where j: "sw_scan e j0 = Some j" "j0 \<le> j" "j \<le> i" "Giant_bit e j"
        using sw_scan_finds [OF j0(2) bit] by blast
      define m where "m = nat (i - j + 1)"
      define a where "a = e div 2 ^ nat j"
      have jn: "0 \<le> j" "j \<le> i + 1" using j0 j by simp_all
      have mW: "m \<le> nat W" "m \<noteq> 0" using j0 j by (simp_all add: m_def)
      have aodd: "odd a" using j(4) by (simp add: a_def Giant_bit_def)
      have get: "U_get U (int (a mod 2 ^ m) div 2) = Some (x0 ^ (a mod 2 ^ m) mod N)"
        using table W mW aodd by (rule U_get_odd_power)
      have nat_i: "nat (i + 1) = nat j + m" using jn j by (simp add: m_def)
      have hi: "a div 2 ^ m = e div 2 ^ nat (i + 1)"
        unfolding a_def nat_i by (simp only: div_pow2_add)
      have split: "a = e div 2 ^ nat (i + 1) * 2 ^ m + a mod 2 ^ m"
        unfolding hi [symmetric] by (rule div_mult_mod_eq [symmetric])
      have next_lt: "j - 1 < len" "- 1 \<le> j - 1" "j - 1 \<le> len" "nat (j - 1 + 1) < nat (i + 1)"
        using j jn less.prems(2) i0 by simp_all
      have rec: "\<And>y. y = x0 ^ a mod N \<Longrightarrow> sw_loop N W e len U (j - 1) y = Some (x0 ^ e mod N)"
      proof -
        fix y assume "y = x0 ^ a mod N"
        then have "y = x0 ^ (e div 2 ^ nat (j - 1 + 1)) mod N" by (simp add: a_def)
        then show "sw_loop N W e len U (j - 1) y = Some (x0 ^ e mod N)"
          using next_lt by (intro less.hyps) simp_all
      qed
      have unfold: "sw_loop N W e len U i x =
          (case sw_scan e j0 of
            None \<Rightarrow> None
          | Some j \<Rightarrow>
              if i = len
              then (case sw_read e j i 0 of
                      (i', ui) \<Rightarrow>
                        (case U_get U (ui div 2) of
                           None \<Rightarrow> None
                         | Some u \<Rightarrow> sw_loop N W e len U i' u))
              else (case sw_square_read N e j i 0 x of
                      (i', ui, x') \<Rightarrow>
                        (case U_get U (ui div 2) of
                           None \<Rightarrow> None
                         | Some u \<Rightarrow> sw_loop N W e len U i' (gw_mul N u x'))))"
        by (subst sw_loop.simps) (simp only: i0 bit if_True not_True_eq_False if_False j0_def)
      show ?thesis
      proof (cases "i = len")
        case True
        have rd: "sw_read e j i 0 = (j - 1, int (a mod 2 ^ m))"
          using sw_read_value [where ui = 0 and e = e, OF jn] by (simp add: m_def a_def)
        have "a = a mod 2 ^ m" using split top(2) True by simp
        then have "sw_loop N W e len U (j - 1) (x0 ^ (a mod 2 ^ m) mod N) = Some (x0 ^ e mod N)"
          using rec by simp
        then show ?thesis
          unfolding unfold
          by (simp only: j(1) option.case if_P [OF True] rd prod.case get)
      next
        case False
        then have lt: "i < len" using less.prems(2) by simp
        have x: "x = x0 ^ (e div 2 ^ nat (i + 1)) mod N" using less.prems(3) [OF lt] .
        have rd: "sw_square_read N e j i 0 x
            = (j - 1, int (a mod 2 ^ m), x0 ^ (e div 2 ^ nat (i + 1) * 2 ^ m) mod N)"
          using sw_square_read_value [where ui = 0 and e = e, OF jn x] by (simp add: m_def a_def)
        have "gw_mul N (x0 ^ (a mod 2 ^ m) mod N) (x0 ^ (e div 2 ^ nat (i + 1) * 2 ^ m) mod N)
            = x0 ^ a mod N"
          unfolding gw_mul_pow using split by (simp add: add.commute)
        then have "sw_loop N W e len U (j - 1)
            (gw_mul N (x0 ^ (a mod 2 ^ m) mod N) (x0 ^ (e div 2 ^ nat (i + 1) * 2 ^ m) mod N))
            = Some (x0 ^ e mod N)"
          by (rule rec)
        then show ?thesis
          unfolding unfold
          by (simp only: j(1) option.case if_not_P [OF False] rd prod.case get)
      qed
    qed
  qed
qed

section \<open>MultipointExp\<close>

text \<open>
  The members of the task that \<^verbatim>\<open>execute\<close> and \<^verbatim>\<open>sliding_window\<close> use. The
  points and the iteration counters are C \<^verbatim>\<open>int\<close>s; the index \<^verbatim>\<open>next_point\<close> only
  counts up from 0 and is a natural number. \<open>mp_commit\<close> is the checkpoint cadence of the
  task framework.
\<close>

record MultipointExp =
  mp_N :: nat
  mp_b :: nat
  mp_points :: "int list"
  mp_W :: int
  mp_max_size :: int
  mp_commit :: "int \<Rightarrow> bool"
  mp_state :: "State option"
  mp_X :: GWNum
  mp_U :: "GWNum list"

definition MultipointExp_init_state :: "MultipointExp \<Rightarrow> State \<Rightarrow> MultipointExp" where
  "MultipointExp_init_state t state = t\<lparr>mp_state := Some state\<rparr>"

definition MultipointExp_init :: "MultipointExp \<Rightarrow> State option \<Rightarrow> MultipointExp" where
  "MultipointExp_init t file =
     (case file of
        None \<Rightarrow> t\<lparr>mp_state := None\<rparr>
      | Some state \<Rightarrow> MultipointExp_init_state (t\<lparr>mp_state := None\<rparr>) state)"

text \<open>\<^verbatim>\<open>for (next_point = 0; next_point < _points.size() && i >= _points[next_point];
  next_point++);\<close>\<close>

function mp_skip :: "int list \<Rightarrow> int \<Rightarrow> nat \<Rightarrow> nat" where
  "mp_skip points i next_point =
     (if next_point < length points \<and> i \<ge> points ! next_point
      then mp_skip points i (next_point + 1) else next_point)"
  by pat_completeness auto
termination
  by (relation "measure (\<lambda>(points, i, next_point). length points - next_point)") auto

declare mp_skip.simps [simp del]

text \<open>Modelled from the spec: \<^verbatim>\<open>commit_execute<State>(i, X)\<close> of the task framework,
  which stores the state \<open>(i, X)\<close> when the checkpoint cadence says so; the cadence is the
  parameter \<open>commit\<close>.\<close>

definition commit_execute :: "(int \<Rightarrow> bool) \<Rightarrow> int \<Rightarrow> GWNum \<Rightarrow> State \<Rightarrow> State" where
  "commit_execute commit i x s = (if commit i then \<lparr>iteration = i, X = x\<rparr> else s)"

text \<open>The squaring loop of the case \<^verbatim>\<open>_b == 2\<close>.\<close>

function mp_squarings :: "nat \<Rightarrow> (int \<Rightarrow> bool) \<Rightarrow> int \<Rightarrow> int \<Rightarrow> GWNum \<Rightarrow> State \<Rightarrow> int \<times> GWNum \<times> State" where
  "mp_squarings N commit p i x s =
     (if i < p
      then (let x' = gw_square N 1 x False
            in mp_squarings N commit p (i + 1) x' (commit_execute commit (i + 1) x' s))
      else (i, x, s))"
  by pat_completeness auto
termination
  by (relation "measure (\<lambda>(N, commit, p, i, x, s). nat (p - i))") auto

declare mp_squarings.simps [simp del]

text \<open>The loop over the points of \<^verbatim>\<open>MultipointExp::execute\<close>. Its state is the locals
  \<^verbatim>\<open>next_point\<close>, \<^verbatim>\<open>i\<close>, \<^verbatim>\<open>last_power\<close>, \<^verbatim>\<open>exp\<close> and the members \<^verbatim>\<open>X()\<close>,
  \<^verbatim>\<open>_state\<close>, \<^verbatim>\<open>_U\<close>. No result (\<open>None\<close>) stands for a run of
  \<^verbatim>\<open>sliding_window\<close> that does not return or reads outside its table.\<close>

function mp_points_loop ::
  "MultipointExp \<Rightarrow> nat \<Rightarrow> int \<Rightarrow> GWNum \<Rightarrow> int \<Rightarrow> Giant \<Rightarrow> State \<Rightarrow> GWNum list
     \<Rightarrow> MultipointExp option" where
  "mp_points_loop t next_point i x last_power expv s U =
     (if next_point < length (mp_points t)
      then
        (let p = mp_points t ! next_point in
         if mp_b t = 2
         then (case mp_squarings (mp_N t) (mp_commit t) p i x s of
                 (i', x', s') \<Rightarrow>
                   mp_points_loop t (next_point + 1) i' x' last_power expv
                     (if iteration s' \<noteq> i' then \<lparr>iteration = i', X = x'\<rparr> else s') U)
         else
           (let last_power' = (if last_power \<noteq> p - i then p - i else last_power);
                expn = (if last_power \<noteq> p - i then Giant_power (mp_b t) (p - i) else expv)
            in case sliding_window (mp_N t) (mp_W t) (mp_max_size t) expn (U, x) of
                 None \<Rightarrow> None
               | Some (U', x') \<Rightarrow>
                   mp_points_loop t (next_point + 1) p x' last_power' expn
                     (if iteration s \<noteq> p then \<lparr>iteration = p, X = x'\<rparr> else s) U'))
      else Some (t\<lparr>mp_state := Some s, mp_X := x, mp_U := U\<rparr>))"
  by pat_completeness auto
termination
  by (relation "measure (\<lambda>(t, next_point, i, x, last_power, exp, s, U).
        length (mp_points t) - next_point)") auto

declare mp_points_loop.simps [simp del]

definition MultipointExp_execute :: "MultipointExp \<Rightarrow> (error + MultipointExp) option" where
  "MultipointExp_execute t =
     (case mp_state t of
        None \<Rightarrow> Some (Inl AssertionFailed)
      | Some s \<Rightarrow>
          (let i = iteration s;
               x = gw_assign (mp_N t) (X s);
               next_point = mp_skip (mp_points t) i 0
           in case mp_points_loop t next_point i x (- 1) 0 s (mp_U t) of
                None \<Rightarrow> None
              | Some t' \<Rightarrow> Some (Inr t')))"

lemma sliding_window_correct:
  assumes e: "0 < e" and x: "x mod N = x"
  shows "\<exists>U'. sliding_window N W_max max_size e (U, x) = Some (U', x ^ e mod N)"
proof -
  define len where "len = Giant_bitlen e - 1"
  define W where "W = choose_W W_max max_size len 2"
  define U1 where "U1 = (if length U \<le> 0 then U @ [0] else U)[0 := x]"
  define x1 where "x1 = gw_square N 1 (U1 ! 0) False"
  have W: "2 \<le> W" unfolding W_def by (rule choose_W_ge)
  have l1: "1 \<le> int (length U1)" by (cases U) (simp_all add: U1_def)
  have u0: "U1 ! 0 = x" by (cases U) (simp_all add: U1_def)
  have x1: "x1 = x ^ 2 mod N" by (simp add: x1_def u0 gw_square_def power2_eq_square)
  have first: "\<And>k. k < nat 1 \<Longrightarrow> U1 ! k = x ^ (2 * k + 1) mod N"
    using u0 x by simp
  have "(1::int) \<le> 2 ^ nat (W - 1)" by simp
  from sw_table_correct [OF order_refl l1 this first x1]
  obtain U2 where U2: "sw_table N W 1 x1 U1 = Some U2" "2 ^ nat (W - 1) \<le> int (length U2)"
    "\<And>k. int k < 2 ^ nat (W - 1) \<Longrightarrow> U2 ! k = x ^ (2 * k + 1) mod N" by blast
  have W1: "1 \<le> W" using W by simp
  have len0: "- 1 \<le> len" unfolding len_def using Giant_bitlen_nonneg [of e] by simp
  have loop: "sw_loop N W e len U2 len x1 = Some (x ^ e mod N)"
    by (rule sw_loop_correct [OF U2(2,3) W1 e len_def len0 order_refl]) simp_all
  have "sliding_window N W_max max_size e (U, x) = Some (U2, x ^ e mod N)"
    apply (simp only: sliding_window_def Let_def prod.case)
    apply (simp only: len_def [symmetric])
    apply (simp only: W_def [symmetric])
    apply (simp only: U1_def [symmetric])
    apply (simp only: x1_def [symmetric])
    apply (simp only: U2(1) loop option.case)
    done
  then show ?thesis by blast
qed

lemma mp_skip_spec:
  "next_point \<le> length points \<Longrightarrow> (\<And>k. k < next_point \<Longrightarrow> points ! k \<le> i) \<Longrightarrow>
   mp_skip points i next_point \<le> length points
   \<and> (mp_skip points i next_point < length points \<longrightarrow> i < points ! mp_skip points i next_point)
   \<and> (\<forall>k < mp_skip points i next_point. points ! k \<le> i)"
proof (induction points i next_point rule: mp_skip.induct)
  case (1 points i next_point)
  show ?case
  proof (cases "next_point < length points \<and> i \<ge> points ! next_point")
    case True
    have step: "mp_skip points i next_point = mp_skip points i (next_point + 1)"
      by (subst mp_skip.simps) (simp only: True if_True simp_thms)
    have a: "next_point + 1 \<le> length points" using True by simp
    have b: "\<And>k. k < next_point + 1 \<Longrightarrow> points ! k \<le> i"
    proof -
      fix k assume "k < next_point + 1"
      then have "k < next_point \<or> k = next_point" by auto
      then show "points ! k \<le> i" using "1.prems"(2) True by auto
    qed
    show ?thesis unfolding step by (rule "1.IH" [OF True a b])
  next
    case False
    have stop: "mp_skip points i next_point = next_point"
      by (subst mp_skip.simps) (simp only: False if_False)
    show ?thesis unfolding stop using False "1.prems" by auto
  qed
qed

lemma mp_squarings_spec:
  "i \<le> p \<Longrightarrow> x = x0 ^ a mod N \<Longrightarrow> iteration s < p \<or> s = \<lparr>iteration = i, X = x\<rparr> \<Longrightarrow>
   \<exists>s'. mp_squarings N commit p i x s = (p, x0 ^ (a * 2 ^ nat (p - i)) mod N, s')
     \<and> (iteration s' < p \<or> s' = \<lparr>iteration = p, X = x0 ^ (a * 2 ^ nat (p - i)) mod N\<rparr>)"
proof (induction N commit p i x s arbitrary: a rule: mp_squarings.induct)
  case (1 N commit p i x s)
  show ?case
  proof (cases "i < p")
    case True
    define x' where "x' = gw_square N 1 x False"
    define s1 where "s1 = commit_execute commit (i + 1) x' s"
    have x': "x' = x0 ^ (2 * a) mod N" unfolding x'_def "1.prems"(2) by (rule gw_square_plain)
    have s1: "iteration s1 < p \<or> s1 = \<lparr>iteration = i + 1, X = x'\<rparr>"
      using "1.prems"(3) True by (auto simp: s1_def commit_execute_def)
    have le: "i + 1 \<le> p" using True by simp
    have m: "nat (p - i) = Suc (nat (p - (i + 1)))" using True by simp
    have ex: "2 * a * 2 ^ nat (p - (i + 1)) = a * 2 ^ nat (p - i)" unfolding m by simp
    obtain s' where s': "mp_squarings N commit p (i + 1) x' s1
          = (p, x0 ^ (2 * a * 2 ^ nat (p - (i + 1))) mod N, s')"
        "iteration s' < p \<or> s' = \<lparr>iteration = p, X = x0 ^ (2 * a * 2 ^ nat (p - (i + 1))) mod N\<rparr>"
      using "1.IH" [OF True x'_def le x' s1 [unfolded s1_def]] unfolding s1_def by blast
    have "mp_squarings N commit p i x s = mp_squarings N commit p (i + 1) x' s1"
      by (subst mp_squarings.simps) (simp only: True if_True Let_def x'_def s1_def)
    then show ?thesis using s' unfolding ex by auto
  next
    case False
    then have eq: "i = p" using "1.prems"(1) by simp
    have "mp_squarings N commit p i x s = (i, x, s)"
      by (subst mp_squarings.simps) (simp only: False if_False)
    then show ?thesis using "1.prems"(2,3) eq by simp
  qed
qed

lemma pow_pow_mod: "(x ^ a mod N) ^ c mod N = x ^ (a * c) mod (N::nat)"
  by (simp add: power_mod power_mult)

lemma sorted_nth_le_last:
  assumes "sorted_wrt (<) (ps::int list)" and "k < length ps"
  shows "ps ! k \<le> last ps"
proof (cases "k = length ps - 1")
  case True
  moreover have "ps \<noteq> []" using assms(2) by auto
  ultimately show ?thesis by (simp add: last_conv_nth)
next
  case False
  then have "k < length ps - 1" using assms(2) by simp
  then have "ps ! k < ps ! (length ps - 1)"
    using assms(2) by (intro sorted_wrt_nth_less [OF assms(1)]) simp_all
  moreover have "ps \<noteq> []" using assms(2) by auto
  ultimately show ?thesis by (simp add: last_conv_nth)
qed

lemma mp_points_loop_spec:
  assumes srt: "sorted_wrt (<) (mp_points t)" and b: "1 \<le> mp_b t"
  shows "np \<le> length (mp_points t) \<Longrightarrow> (np < length (mp_points t) \<Longrightarrow> i < mp_points t ! np) \<Longrightarrow>
    x mod mp_N t = x \<Longrightarrow> iteration s \<le> i \<Longrightarrow>
    last_power = - 1 \<or> expv = mp_b t ^ nat last_power \<Longrightarrow>
    \<exists>U' s' x'. mp_points_loop t np i x last_power expv s U
        = Some (t\<lparr>mp_state := Some s', mp_X := x', mp_U := U'\<rparr>)
      \<and> (if np < length (mp_points t)
         then x' = x ^ (mp_b t ^ nat (last (mp_points t) - i)) mod mp_N t
              \<and> s' = \<lparr>iteration = last (mp_points t), X = x'\<rparr>
         else x' = x \<and> s' = s)"
proof (induction "length (mp_points t) - np" arbitrary: np i x last_power expv s U)
  case 0
  then have "\<not> np < length (mp_points t)" by simp
  then show ?case by (subst mp_points_loop.simps) auto
next
  case (Suc n)
  define N where "N = mp_N t"
  define p where "p = mp_points t ! np"
  have np: "np < length (mp_points t)" using Suc.hyps(2) by simp
  have ip: "i < p" unfolding p_def using Suc.prems(2) np by simp
  have plast: "p \<le> last (mp_points t)" unfolding p_def using srt np by (rule sorted_nth_le_last)
  define e1 where "e1 = mp_b t ^ nat (p - i)"
  have e1pos: "0 < e1" using b by (simp add: e1_def)
  define x1 where "x1 = x ^ e1 mod N"
  define s1 where "s1 = \<lparr>iteration = p, X = x1\<rparr>"
  have x1mod: "x1 mod mp_N t = x1" by (simp add: x1_def N_def)
  have n: "n = length (mp_points t) - (np + 1)" using Suc.hyps(2) by simp
  have np1: "np + 1 \<le> length (mp_points t)" using np by simp
  have nxt: "np + 1 < length (mp_points t) \<Longrightarrow> p < mp_points t ! (np + 1)"
    unfolding p_def by (rule sorted_wrt_nth_less [OF srt]) simp_all
  have s1i: "iteration s1 \<le> p" by (simp add: s1_def)
  have rest: "\<And>lp ex U1. lp = - 1 \<or> ex = mp_b t ^ nat lp \<Longrightarrow>
      \<exists>U' s' x'. mp_points_loop t (np + 1) p x1 lp ex s1 U1
        = Some (t\<lparr>mp_state := Some s', mp_X := x', mp_U := U'\<rparr>)
      \<and> x' = x ^ (mp_b t ^ nat (last (mp_points t) - i)) mod mp_N t
      \<and> s' = \<lparr>iteration = last (mp_points t), X = x'\<rparr>"
  proof -
    fix lp ex U1 assume c: "lp = - 1 \<or> ex = mp_b t ^ nat lp"
    obtain U' s' x' where r: "mp_points_loop t (np + 1) p x1 lp ex s1 U1
        = Some (t\<lparr>mp_state := Some s', mp_X := x', mp_U := U'\<rparr>)"
      "if np + 1 < length (mp_points t)
         then x' = x1 ^ (mp_b t ^ nat (last (mp_points t) - p)) mod mp_N t
              \<and> s' = \<lparr>iteration = last (mp_points t), X = x'\<rparr>
         else x' = x1 \<and> s' = s1"
      using Suc.hyps(1) [OF n np1 nxt x1mod s1i c] by blast
    have "x' = x ^ (mp_b t ^ nat (last (mp_points t) - i)) mod mp_N t
      \<and> s' = \<lparr>iteration = last (mp_points t), X = x'\<rparr>"
    proof (cases "np + 1 < length (mp_points t)")
      case True
      have "nat (p - i) + nat (last (mp_points t) - p) = nat (last (mp_points t) - i)"
        using ip plast by simp
      then have "e1 * mp_b t ^ nat (last (mp_points t) - p) = mp_b t ^ nat (last (mp_points t) - i)"
        unfolding e1_def by (simp add: power_add [symmetric])
      then have "x1 ^ (mp_b t ^ nat (last (mp_points t) - p)) mod mp_N t
          = x ^ (mp_b t ^ nat (last (mp_points t) - i)) mod mp_N t"
        unfolding x1_def N_def pow_pow_mod by simp
      then show ?thesis using r(2) True by simp
    next
      case False
      then have "np = length (mp_points t) - 1" using np by simp
      moreover have "mp_points t \<noteq> []" using np by auto
      ultimately have "last (mp_points t) = p" by (simp add: last_conv_nth p_def)
      then show ?thesis using r(2) False by (simp add: x1_def s1_def e1_def N_def)
    qed
    then show "\<exists>U' s' x'. mp_points_loop t (np + 1) p x1 lp ex s1 U1
        = Some (t\<lparr>mp_state := Some s', mp_X := x', mp_U := U'\<rparr>)
      \<and> x' = x ^ (mp_b t ^ nat (last (mp_points t) - i)) mod mp_N t
      \<and> s' = \<lparr>iteration = last (mp_points t), X = x'\<rparr>"
      using r(1) by blast
  qed
  show ?case
  proof (cases "mp_b t = 2")
    case True
    have x: "x = x ^ 1 mod N" using Suc.prems(3) by (simp add: N_def)
    have st: "iteration s < p \<or> s = \<lparr>iteration = i, X = x\<rparr>" using Suc.prems(4) ip by simp
    obtain s' where sq: "mp_squarings N (mp_commit t) p i x s = (p, x ^ (1 * 2 ^ nat (p - i)) mod N, s')"
      "iteration s' < p \<or> s' = \<lparr>iteration = p, X = x ^ (1 * 2 ^ nat (p - i)) mod N\<rparr>"
      using mp_squarings_spec [OF less_imp_le [OF ip] x st] by blast
    have x1': "x ^ (1 * 2 ^ nat (p - i)) mod N = x1" by (simp add: x1_def e1_def True)
    have s2: "(if iteration s' \<noteq> p then \<lparr>iteration = p, X = x1\<rparr> else s') = s1"
      using sq(2) unfolding x1' by (auto simp: s1_def)
    have "mp_points_loop t np i x last_power expv s U
        = mp_points_loop t (np + 1) p x1 last_power expv s1 U"
      by (subst mp_points_loop.simps)
        (simp only: np if_True Let_def p_def [symmetric] if_P [OF True] N_def [symmetric]
          sq(1) [unfolded x1'] prod.case s2)
    then show ?thesis using rest [OF Suc.prems(5)] np by simp
  next
    case False
    define lp where "lp = (if last_power \<noteq> p - i then p - i else last_power)"
    define ex where "ex = (if last_power \<noteq> p - i then Giant_power (mp_b t) (p - i) else expv)"
    have ex: "ex = e1"
    proof (cases "last_power \<noteq> p - i")
      case True
      then show ?thesis by (simp add: ex_def e1_def Giant_power_def)
    next
      case False
      then have "last_power \<noteq> - 1" using ip by simp
      then show ?thesis using False Suc.prems(5) by (simp add: ex_def e1_def)
    qed
    have c: "lp = - 1 \<or> ex = mp_b t ^ nat lp" unfolding ex by (simp add: lp_def e1_def)
    obtain U1 where sw: "sliding_window N (mp_W t) (mp_max_size t) ex (U, x) = Some (U1, x1)"
      using sliding_window_correct [OF e1pos, of x N "mp_W t" "mp_max_size t" U] Suc.prems(3)
      unfolding ex x1_def N_def by blast
    have s2: "(if iteration s \<noteq> p then \<lparr>iteration = p, X = x1\<rparr> else s) = s1"
      using Suc.prems(4) ip by (simp add: s1_def)
    have "mp_points_loop t np i x last_power expv s U
        = mp_points_loop t (np + 1) p x1 lp ex s1 U1"
      by (subst mp_points_loop.simps)
        (simp only: np if_True Let_def p_def [symmetric] if_not_P [OF False] N_def [symmetric]
          lp_def [symmetric] ex_def [symmetric] sw option.case prod.case s2)
    then show ?thesis using rest [OF c] np by simp
  qed
qed

text \<open>The residue \<^verbatim>\<open>X()\<close> that a run of \<^verbatim>\<open>execute\<close> leaves behind, when it returns
  normally.\<close>

definition MultipointExp_residue :: "MultipointExp \<Rightarrow> GWNum option" where
  "MultipointExp_residue t =
     (case MultipointExp_execute t of
        Some (Inr t') \<Rightarrow> Some (mp_X t')
      | _ \<Rightarrow> None)"

lemma MultipointExp_execute_spec:
  assumes srt: "sorted_wrt (<) (mp_points t)" and ne: "mp_points t \<noteq> []"
    and b: "1 \<le> mp_b t" and st: "mp_state t = Some \<lparr>iteration = 0, X = x\<rparr>"
  shows "\<exists>t'. MultipointExp_execute t = Some (Inr t')
     \<and> mp_X t' = x ^ (mp_b t ^ nat (last (mp_points t))) mod mp_N t"
proof -
  define np where "np = mp_skip (mp_points t) 0 0"
  define x0 where "x0 = x mod mp_N t"
  have sk: "np \<le> length (mp_points t)" "np < length (mp_points t) \<Longrightarrow> 0 < mp_points t ! np"
    "\<And>k. k < np \<Longrightarrow> mp_points t ! k \<le> 0"
    using mp_skip_spec [of 0 "mp_points t" 0] by (simp_all add: np_def)
  have x0: "x0 mod mp_N t = x0" by (simp add: x0_def)
  have it: "iteration \<lparr>iteration = 0, X = x\<rparr> \<le> 0" by simp
  have c: "(- 1::int) = - 1 \<or> (0::nat) = mp_b t ^ nat (- 1)" by simp
  obtain U' s' x' where r:
    "mp_points_loop t np 0 x0 (- 1) 0 \<lparr>iteration = 0, X = x\<rparr> (mp_U t)
        = Some (t\<lparr>mp_state := Some s', mp_X := x', mp_U := U'\<rparr>)"
    "if np < length (mp_points t)
         then x' = x0 ^ (mp_b t ^ nat (last (mp_points t) - 0)) mod mp_N t
              \<and> s' = \<lparr>iteration = last (mp_points t), X = x'\<rparr>
         else x' = x0 \<and> s' = \<lparr>iteration = 0, X = x\<rparr>"
    using mp_points_loop_spec [OF srt b sk(1,2) x0 it c] by blast
  have "x' = x ^ (mp_b t ^ nat (last (mp_points t))) mod mp_N t"
  proof (cases "np < length (mp_points t)")
    case True
    then show ?thesis using r(2) by (simp add: x0_def power_mod)
  next
    case False
    then have "np = length (mp_points t)" using sk(1) by simp
    then have "mp_points t ! (length (mp_points t) - 1) \<le> 0" using sk(3) ne by simp
    then have "last (mp_points t) \<le> 0" using ne by (simp add: last_conv_nth)
    then have "nat (last (mp_points t)) = 0" by simp
    then show ?thesis using r(2) False by (simp add: x0_def)
  qed
  moreover have "MultipointExp_execute t
      = Some (Inr (t\<lparr>mp_state := Some s', mp_X := x', mp_U := U'\<rparr>))"
    unfolding MultipointExp_execute_def
    by (simp add: st Let_def gw_assign_def np_def [symmetric] x0_def [symmetric] r(1))
  ultimately show ?thesis by simp
qed

text \<open>
  Claim C2 (as amended). For every base \<open>b \<ge> 1\<close>, every strictly increasing point schedule,
  every starting residue \<open>X\<close> (a state at iteration 0) and every modulus \<open>N\<close>, the residue
  that \<^verbatim>\<open>MultipointExp::execute\<close> ends with is \<open>X ^ (b ^ last points) mod N\<close>, and it
  is the same for every schedule with the same last point.
\<close>

theorem MultipointExp_final_residue:
  assumes "sorted_wrt (<) (mp_points t)" and "mp_points t \<noteq> []"
    and "1 \<le> mp_b t" and "mp_state t = Some \<lparr>iteration = 0, X = x\<rparr>"
  shows "MultipointExp_residue t = Some (x ^ (mp_b t ^ nat (last (mp_points t))) mod mp_N t)
    \<and> (\<forall>ps. sorted_wrt (<) ps \<and> ps \<noteq> [] \<and> last ps = last (mp_points t)
          \<longrightarrow> MultipointExp_residue (t\<lparr>mp_points := ps\<rparr>) = MultipointExp_residue t)"
proof -
  have a: "MultipointExp_residue t = Some (x ^ (mp_b t ^ nat (last (mp_points t))) mod mp_N t)"
    using MultipointExp_execute_spec [OF assms] by (auto simp: MultipointExp_residue_def)
  have "MultipointExp_residue (t\<lparr>mp_points := ps\<rparr>) = MultipointExp_residue t"
    if ps: "sorted_wrt (<) ps" "ps \<noteq> []" "last ps = last (mp_points t)" for ps
  proof -
    have "\<exists>t'. MultipointExp_execute (t\<lparr>mp_points := ps\<rparr>) = Some (Inr t')
     \<and> mp_X t' = x ^ (mp_b (t\<lparr>mp_points := ps\<rparr>) ^ nat (last (mp_points (t\<lparr>mp_points := ps\<rparr>))))
         mod mp_N (t\<lparr>mp_points := ps\<rparr>)"
      using ps(1,2) assms(3,4) by (intro MultipointExp_execute_spec) simp_all
    then show ?thesis using a ps(3) by (auto simp: MultipointExp_residue_def)
  qed
  with a show ?thesis by blast
qed

text \<open>A concrete task: modulus 1009, starting residue 3, no bound on the window.\<close>

definition mp_example :: "nat \<Rightarrow> int list \<Rightarrow> MultipointExp" where
  "mp_example b ps = \<lparr>mp_N = 1009, mp_b = b, mp_points = ps, mp_W = - 1, mp_max_size = - 1,
     mp_commit = (\<lambda>i. False), mp_state = Some \<lparr>iteration = 0, X = 3\<rparr>, mp_X = 0, mp_U = []\<rparr>"

theorem MultipointExp_final_residue_witness:
  "sorted_wrt (<) (mp_points (mp_example 3 [2, 5])) \<and> mp_points (mp_example 3 [2, 5]) \<noteq> []
   \<and> 1 \<le> mp_b (mp_example 3 [2, 5])
   \<and> MultipointExp_residue (mp_example 3 [2, 5]) = Some (3 ^ (3 ^ 5) mod 1009)
   \<and> MultipointExp_residue (mp_example 3 [5]) = MultipointExp_residue (mp_example 3 [2, 5])"
proof -
  have h: "sorted_wrt (<) (mp_points (mp_example 3 [2, 5]))" "mp_points (mp_example 3 [2, 5]) \<noteq> []"
    "1 \<le> mp_b (mp_example 3 [2, 5])"
    "mp_state (mp_example 3 [2, 5]) = Some \<lparr>iteration = 0, X = 3\<rparr>"
    by (simp_all add: mp_example_def)
  have e: "mp_example 3 [2, 5]\<lparr>mp_points := [5]\<rparr> = mp_example 3 [5]"
    by (simp add: mp_example_def)
  have "MultipointExp_residue (mp_example 3 [2, 5])
          = Some (3 ^ (mp_b (mp_example 3 [2, 5]) ^ nat (last (mp_points (mp_example 3 [2, 5]))))
              mod mp_N (mp_example 3 [2, 5]))
    \<and> MultipointExp_residue (mp_example 3 [2, 5]\<lparr>mp_points := [5]\<rparr>)
        = MultipointExp_residue (mp_example 3 [2, 5])"
    using MultipointExp_final_residue [OF h] by (simp add: mp_example_def)
  then show ?thesis using h(1,2,3) unfolding e by (simp add: mp_example_def)
qed

lemma choose_W_zero_exponent: "choose_W (- 1) (- 1) (- 1) 2 = 2"
  by (subst choose_W.simps) (simp add: window_cost_def)

lemma sw_table_example: "sw_table 1009 2 1 9 [3] = Some [3, 27]"
  apply (subst sw_table.simps)
  apply (simp add: U_get_def gw_mul_def Let_def)
  apply (subst sw_table.simps)
  apply simp
  done

lemma sw_loop_zero_exponent: "sw_loop 1009 2 0 (- 1) [3, 27] (- 1) 9 = Some 9"
  by (subst sw_loop.simps) simp

lemma sliding_window_zero_exponent: "sliding_window 1009 (- 1) (- 1) 0 ([], 3) = Some ([3, 27], 9)"
  by (simp add: sliding_window_def Giant_bitlen.simps choose_W_zero_exponent gw_square_def sw_table_example sw_loop_zero_exponent)

lemma mp_skip_example: "mp_skip [1] 0 0 = 0"
  by (subst mp_skip.simps) simp

text \<open>
  With the base 0 the exponent \<open>0 ^ 1\<close> is 0, of bit length 0: the window loop of
  \<^verbatim>\<open>sliding_window\<close> never runs and the residue is the square left by the table set-up,
  not \<open>X ^ 0\<close>.
\<close>

theorem MultipointExp_base_zero:
  "MultipointExp_residue (mp_example 0 [1]) = Some 9 \<and> (3::nat) ^ (0 ^ nat 1) mod 1009 = 1"
proof -
  have "mp_points_loop (mp_example 0 [1]) 0 0 3 (- 1) 0 \<lparr>iteration = 0, X = 3\<rparr> []
      = mp_points_loop (mp_example 0 [1]) 1 1 9 1 0 \<lparr>iteration = 1, X = 9\<rparr> [3, 27]"
    by (subst mp_points_loop.simps) (simp add: mp_example_def Giant_power_def sliding_window_zero_exponent)
  also have "\<dots> = Some (mp_example 0 [1]\<lparr>mp_state := Some \<lparr>iteration = 1, X = 9\<rparr>, mp_X := 9,
      mp_U := [3, 27]\<rparr>)"
    by (subst mp_points_loop.simps) (simp add: mp_example_def)
  finally have "MultipointExp_execute (mp_example 0 [1])
      = Some (Inr (mp_example 0 [1]\<lparr>mp_state := Some \<lparr>iteration = 1, X = 9\<rparr>, mp_X := 9,
      mp_U := [3, 27]\<rparr>))"
    by (simp add: MultipointExp_execute_def mp_example_def gw_assign_def mp_skip_example)
  then show ?thesis by (simp add: MultipointExp_residue_def)
qed




lemma Giant_bitlen_5: "Giant_bitlen 5 = 3"
  by (simp add: Giant_bitlen.simps)






section \<open>GerbiczCheckMultipointExp\<close>

text \<open>
  The working state \<^verbatim>\<open>_state\<close> of a Gerbicz task is either a bare iteration cursor
  (\<^verbatim>\<open>TaskState\<close>, as installed by \<^verbatim>\<open>_state.reset(new TaskState(0)); _state->set(k)\<close>) or a
  \<^verbatim>\<open>GerbiczCheckState\<close> with the iteration and the residues \<^verbatim>\<open>X\<close> and \<^verbatim>\<open>D\<close>. The
  recovery state \<^verbatim>\<open>_state_recovery\<close> is a \<^verbatim>\<open>State\<close>.
\<close>

datatype TaskState = TaskState int | GerbiczCheckState int Giant Giant

fun ts_iteration :: "TaskState \<Rightarrow> int" where
  "ts_iteration (TaskState i) = i"
| "ts_iteration (GerbiczCheckState i x d) = i"

text \<open>Modelled from the spec: the accessor \<^verbatim>\<open>state_check()\<close> of the class declaration, the
  working state when it is a \<^verbatim>\<open>GerbiczCheckState\<close> and null otherwise. The accessor
  \<^verbatim>\<open>state()\<close> of \<^verbatim>\<open>GerbiczCheckMultipointExp\<close> is the recovery state: \<^verbatim>\<open>setup\<close> reads
  the residue \<^verbatim>\<open>state()->X()\<close> into \<^verbatim>\<open>R()\<close>, and \<^verbatim>\<open>execute\<close> measures the position in a
  block as \<^verbatim>\<open>i - state()->iteration()\<close>.\<close>

fun state_check :: "TaskState option \<Rightarrow> (int \<times> Giant \<times> Giant) option" where
  "state_check (Some (GerbiczCheckState i x d)) = Some (i, x, d)"
| "state_check (Some (TaskState i)) = None"
| "state_check None = None"

text \<open>The members of \<^verbatim>\<open>GerbiczCheckMultipointExp\<close> that \<^verbatim>\<open>exp.cpp\<close> reads and writes. The
  residue \<^verbatim>\<open>_R\<close> is absent until \<^verbatim>\<open>setup\<close> creates it; \<^verbatim>\<open>gc_commit\<close> is the checkpoint
  cadence of the task framework.\<close>

record GerbiczCheckMultipointExp =
  gc_N :: nat
  gc_b :: nat
  gc_points :: "int list"
  gc_W :: int
  gc_max_size :: int
  gc_commit :: "int \<Rightarrow> bool"
  gc_L :: int
  gc_L2 :: int
  gc_state :: "TaskState option"
  gc_state_recovery :: "State option"
  gc_R :: "GWNum option"
  gc_X :: GWNum
  gc_D :: GWNum
  gc_U :: "GWNum list"
  gc_restart_op :: int
  gc_recovery_op :: int
  gc_restart_count :: int

text \<open>\<^verbatim>\<open>GerbiczCheckMultipointExp::init_state\<close>: the recovery state is installed, and the
  working state is replaced by a cursor at the recovery iteration when it is absent, behind
  the recovery iteration, or at or beyond \<^verbatim>\<open>_state_recovery->iteration() + _L2\<close>.\<close>

definition Gerbicz_init_state :: "GerbiczCheckMultipointExp \<Rightarrow> State \<Rightarrow> GerbiczCheckMultipointExp" where
  "Gerbicz_init_state t state =
     (let t1 = t\<lparr>gc_state_recovery := Some state\<rparr> in
      case gc_state t1 of
        None \<Rightarrow> t1\<lparr>gc_state := Some (TaskState (iteration state))\<rparr>
      | Some ws \<Rightarrow>
          if ts_iteration ws < iteration state \<or> ts_iteration ws \<ge> iteration state + gc_L2 t1
          then t1\<lparr>gc_state := Some (TaskState (iteration state))\<rparr>
          else t1)"

text \<open>\<^verbatim>\<open>GerbiczCheckMultipointExp::init\<close>: the working state is what
  \<^verbatim>\<open>read_state<GerbiczCheckState>(file)\<close> found, and \<^verbatim>\<open>init_state\<close> runs only when
  \<^verbatim>\<open>read_state<State>(file_recovery)\<close> found a recovery state.\<close>

definition Gerbicz_init ::
  "GerbiczCheckMultipointExp \<Rightarrow> (int \<times> Giant \<times> Giant) option \<Rightarrow> State option
     \<Rightarrow> GerbiczCheckMultipointExp" where
  "Gerbicz_init t file file_recovery =
     (let t1 = t\<lparr>gc_state := (case file of None \<Rightarrow> None
                                | Some (i, x, d) \<Rightarrow> Some (GerbiczCheckState i x d))\<rparr> in
      case file_recovery of
        None \<Rightarrow> t1
      | Some state_recovery \<Rightarrow> Gerbicz_init_state t1 state_recovery)"

text \<open>\<^verbatim>\<open>GerbiczCheckMultipointExp::setup\<close>: when \<^verbatim>\<open>_R\<close> is absent it is created from the
  recovery state, after \<^verbatim>\<open>GWASSERT(state() != nullptr)\<close>.\<close>

definition Gerbicz_setup :: "GerbiczCheckMultipointExp \<Rightarrow> error + GerbiczCheckMultipointExp" where
  "Gerbicz_setup t =
     (case gc_R t of
        Some r \<Rightarrow> Inr t
      | None \<Rightarrow>
          (case gc_state_recovery t of
             None \<Rightarrow> Inl AssertionFailed
           | Some s \<Rightarrow> Inr (t\<lparr>gc_R := Some (gw_assign (gc_N t) (X s))\<rparr>)))"

text \<open>\<^verbatim>\<open>_points[k]\<close>; an index outside the vector is undefined in the source and has no
  value here.\<close>

definition points_get :: "int list \<Rightarrow> int \<Rightarrow> int option" where
  "points_get ps k = (if 0 \<le> k \<and> k < int (length ps) then Some (ps ! nat k) else None)"

text \<open>Modelled from the spec: \<^verbatim>\<open>commit_execute<GerbiczCheckState>(i, X, D)\<close> of the task
  framework, which stores the working state \<open>(i, X, D)\<close> when the checkpoint cadence says
  so.\<close>

definition gc_commit_execute ::
  "(int \<Rightarrow> bool) \<Rightarrow> int \<Rightarrow> GWNum \<Rightarrow> GWNum \<Rightarrow> TaskState option \<Rightarrow> TaskState option" where
  "gc_commit_execute commit i x d s = (if commit i then Some (GerbiczCheckState i x d) else s)"

text \<open>\<^verbatim>\<open>while ((_points[next_point] - state()->iteration()) < L2 && L > 1)\<close>, on the distance
  to the next point; \<^verbatim>\<open>L /= 2\<close> is C's truncating division.\<close>

function gc_shrink :: "int \<Rightarrow> int \<Rightarrow> int \<Rightarrow> int \<Rightarrow> int \<times> int \<times> int" where
  "gc_shrink gap L L2 last_power =
     (if gap < L2 \<and> L > 1
      then gc_shrink gap (L sdiv 2) ((L sdiv 2) * (L sdiv 2)) (- 1)
      else (L, L2, last_power))"
  by pat_completeness auto
termination
proof (relation "measure (\<lambda>(gap, L, L2, last_power). nat L)")
  show "wf (measure (\<lambda>(gap, L, L2, last_power). nat L))" by simp
next
  fix gap L L2 last_power :: int
  assume "gap < L2 \<and> L > 1"
  then have "L sdiv 2 = L div 2" by (simp add: signed_divide_int_def)
  moreover have "L div 2 < L" using \<open>gap < L2 \<and> L > 1\<close> by linarith
  ultimately have "L sdiv 2 < L" by simp
  then show "((gap, L sdiv 2, L sdiv 2 * (L sdiv 2), - 1), (gap, L, L2, last_power))
      \<in> measure (\<lambda>(gap, L, L2, last_power). nat L)"
    using \<open>gap < L2 \<and> L > 1\<close> by simp
qed

declare gc_shrink.simps [simp del]

text \<open>The test \<^verbatim>\<open>j + step != L2 && i + step == _points[next_point]\<close>; the vector is read
  only when the first conjunct holds.\<close>

definition gc_at_point :: "int list \<Rightarrow> int \<Rightarrow> int \<Rightarrow> int \<Rightarrow> int \<Rightarrow> int \<Rightarrow> bool option" where
  "gc_at_point ps next_point L2 j i step =
     (if j + step \<noteq> L2
      then (case points_get ps next_point of None \<Rightarrow> None | Some p \<Rightarrow> Some (i + step = p))
      else Some False)"

text \<open>The block loop of the case \<^verbatim>\<open>_b == 2\<close>, on the locals \<^verbatim>\<open>j\<close>, \<^verbatim>\<open>i\<close>,
  \<^verbatim>\<open>next_point\<close>, the residues \<^verbatim>\<open>X()\<close>, \<^verbatim>\<open>D()\<close> and the working state.\<close>

function gc_block_squarings ::
  "nat \<Rightarrow> (int \<Rightarrow> bool) \<Rightarrow> int list \<Rightarrow> int \<Rightarrow> int \<Rightarrow> int \<Rightarrow> int \<Rightarrow> int \<Rightarrow> GWNum \<Rightarrow> GWNum
     \<Rightarrow> TaskState option \<Rightarrow> (int \<times> int \<times> GWNum \<times> GWNum \<times> TaskState option) option" where
  "gc_block_squarings N commit ps L L2 j i next_point x d s =
     (if j < L2
      then
        (let x1 = gw_square N 1 x False in
         case gc_at_point ps next_point L2 j i 1 of
           None \<Rightarrow> None
         | Some at_point \<Rightarrow>
             (let s1 = (if at_point then Some (GerbiczCheckState (i + 1) x1 d) else s);
                  next_point1 = (if at_point then next_point + 1 else next_point);
                  d1 = (if j + 1 \<noteq> L2 \<and> (j + 1) smod L = 0 then gw_mul N x1 d else d)
              in gc_block_squarings N commit ps L L2 (j + 1) (i + 1) next_point1 x1 d1
                   (gc_commit_execute commit (i + 1) x1 d1 s1)))
      else Some (next_point, i, x, d, s))"
  by pat_completeness auto
termination
  by (relation "measure (\<lambda>(N, commit, ps, L, L2, j, i, next_point, x, d, s). nat (L2 - j))") auto

declare gc_block_squarings.simps [simp del]

text \<open>The locals and members that the block loops of \<^verbatim>\<open>execute\<close> change: the
  counters \<^verbatim>\<open>j\<close>, \<^verbatim>\<open>i\<close>, \<^verbatim>\<open>next_point\<close>, the residues \<^verbatim>\<open>X()\<close>, \<^verbatim>\<open>D()\<close>,
  the working state, the cached power \<^verbatim>\<open>last_power\<close>, \<^verbatim>\<open>exp\<close> and the table
  \<^verbatim>\<open>_U\<close>.\<close>

record GerbiczBlock =
  bl_j :: int
  bl_i :: int
  bl_next_point :: int
  bl_X :: GWNum
  bl_D :: GWNum
  bl_state :: "TaskState option"
  bl_last_power :: int
  bl_exp :: Giant
  bl_U :: "GWNum list"

text \<open>The body of the block loop of the case \<^verbatim>\<open>_b != 2\<close>, with the loop's increment:
  a sliding-window exponentiation by \<open>b ^ L\<close>, the point inside the block, the fold of
  \<^verbatim>\<open>X()\<close> into \<^verbatim>\<open>D()\<close>, then \<^verbatim>\<open>j += L, i += L, commit_execute(i, X(), D())\<close>.\<close>

definition gc_window_step ::
  "GerbiczCheckMultipointExp \<Rightarrow> int \<Rightarrow> int \<Rightarrow> GerbiczBlock \<Rightarrow> GerbiczBlock option" where
  "gc_window_step t L L2 bl =
     (let last_power1 = (if bl_last_power bl \<noteq> L then L else bl_last_power bl);
          expv1 = (if bl_last_power bl \<noteq> L then Giant_power (gc_b t) L else bl_exp bl)
      in case sliding_window (gc_N t) (gc_W t) (gc_max_size t) expv1 (bl_U bl, bl_X bl) of
           None \<Rightarrow> None
         | Some (U1, x1) \<Rightarrow>
             (case gc_at_point (gc_points t) (bl_next_point bl) L2 (bl_j bl) (bl_i bl) L of
                None \<Rightarrow> None
              | Some at_point \<Rightarrow>
                  (let s1 = (if at_point then Some (GerbiczCheckState (bl_i bl + L) x1 (bl_D bl))
                             else bl_state bl);
                       next_point1 = (if at_point then bl_next_point bl + 1 else bl_next_point bl);
                       d1 = (if bl_j bl + L \<noteq> L2 then gw_mul (gc_N t) x1 (bl_D bl) else bl_D bl)
                   in Some \<lparr>bl_j = bl_j bl + L, bl_i = bl_i bl + L, bl_next_point = next_point1,
                        bl_X = x1, bl_D = d1,
                        bl_state = gc_commit_execute (gc_commit t) (bl_i bl + L) x1 d1 s1,
                        bl_last_power = last_power1, bl_exp = expv1, bl_U = U1\<rparr>)))"

text \<open>The block loop of the case \<^verbatim>\<open>_b != 2\<close>. The step \<^verbatim>\<open>j += L\<close> need not make
  progress when \<open>L \<le> 0\<close>, so the loop has a result only when it ends.\<close>

partial_function (option) gc_block_windows ::
  "GerbiczCheckMultipointExp \<Rightarrow> int \<Rightarrow> int \<Rightarrow> GerbiczBlock \<Rightarrow> GerbiczBlock option" where
  "gc_block_windows t L L2 bl =
     (if bl_j bl < L2
      then (case gc_window_step t L L2 bl of
              None \<Rightarrow> None
            | Some bl1 \<Rightarrow> gc_block_windows t L L2 bl1)
      else Some bl)"

text \<open>The block between two verifications: the assertions of \<^verbatim>\<open>execute\<close> and one of the
  two block loops, from the working iteration \<^verbatim>\<open>i\<close> of a block that starts at the
  recovery iteration \<^verbatim>\<open>r\<close>.\<close>

definition gc_block ::
  "GerbiczCheckMultipointExp \<Rightarrow> int \<Rightarrow> int \<Rightarrow> int \<Rightarrow> int \<Rightarrow> int \<Rightarrow> int \<Rightarrow> Giant
     \<Rightarrow> (error + GerbiczBlock) option" where
  "gc_block t r L L2 i next_point last_power expv =
     (if \<not> i - r \<le> L2 then Some (Inl AssertionFailed)
      else if gc_b t = 2
      then (case gc_block_squarings (gc_N t) (gc_commit t) (gc_points t) L L2 (i - r) i next_point
                   (gc_X t) (gc_D t) (gc_state t) of
              None \<Rightarrow> None
            | Some (next_point1, i1, x1, d1, s1) \<Rightarrow>
                Some (Inr \<lparr>bl_j = L2, bl_i = i1, bl_next_point = next_point1, bl_X = x1,
                  bl_D = d1, bl_state = s1, bl_last_power = last_power, bl_exp = expv,
                  bl_U = gc_U t\<rparr>))
      else if (i - r) smod L \<noteq> 0 then Some (Inl AssertionFailed)
      else (case gc_block_windows t L L2
                   \<lparr>bl_j = i - r, bl_i = i, bl_next_point = next_point, bl_X = gc_X t,
                    bl_D = gc_D t, bl_state = gc_state t, bl_last_power = last_power,
                    bl_exp = expv, bl_U = gc_U t\<rparr> of
              None \<Rightarrow> None
            | Some bl \<Rightarrow> Some (Inr bl)))"

text \<open>\<^verbatim>\<open>for (j = 0; j < L; j++) gw().carefully().square(X(), X(), 0);\<close>\<close>

function gc_careful_squarings :: "nat \<Rightarrow> int \<Rightarrow> int \<Rightarrow> GWNum \<Rightarrow> GWNum" where
  "gc_careful_squarings N L j x =
     (if j < L then gc_careful_squarings N L (j + 1) (gw_square N 1 x False) else x)"
  by pat_completeness auto
termination
  by (relation "measure (\<lambda>(N, L, j, x). nat (L - j))") auto

declare gc_careful_squarings.simps [simp del]

text \<open>The arithmetic of the verification step, from \<^verbatim>\<open>GWNum T(D())\<close> to the second
  \<^verbatim>\<open>swap(T, X())\<close>: it returns \<^verbatim>\<open>T\<close>, the new \<^verbatim>\<open>D()\<close>, the cached power and the
  table. \<^verbatim>\<open>X()\<close> is the same before and after.\<close>

definition gc_verify ::
  "GerbiczCheckMultipointExp \<Rightarrow> GWNum \<Rightarrow> int \<Rightarrow> GWNum \<Rightarrow> GWNum \<Rightarrow> int \<Rightarrow> Giant \<Rightarrow> GWNum list
     \<Rightarrow> (GWNum \<times> GWNum \<times> int \<times> Giant \<times> GWNum list) option" where
  "gc_verify t R L x d last_power expv U =
     (let T0 = d;
          d_new = gw_mul (gc_N t) x d
      in case (if gc_b t = 2
               then Some (gc_careful_squarings (gc_N t) L 0 T0, last_power, expv, U)
               else (case sliding_window (gc_N t) (gc_W t) (gc_max_size t)
                            (if last_power \<noteq> L then Giant_power (gc_b t) L else expv) (U, T0) of
                       None \<Rightarrow> None
                     | Some (U1, y) \<Rightarrow>
                         Some (y, if last_power \<noteq> L then L else last_power,
                               if last_power \<noteq> L then Giant_power (gc_b t) L else expv, U1))) of
           None \<Rightarrow> None
         | Some (y, last_power1, expv1, U1) \<Rightarrow>
             Some (gw_sub (gc_N t) (gw_mul (gc_N t) R y) d_new, d_new, last_power1, expv1, U1))"

text \<open>The end of a block: the verification and what follows it. A failed check leaves
  the task as the \<^verbatim>\<open>throw\<close> finds it; a passed one installs the new recovery state.\<close>

definition gc_check ::
  "GerbiczCheckMultipointExp \<Rightarrow> State \<Rightarrow> GWNum \<Rightarrow> int \<Rightarrow> int \<Rightarrow> GWNum \<Rightarrow> GWNum
     \<Rightarrow> int \<Rightarrow> Giant \<Rightarrow> GWNum list
     \<Rightarrow> (error \<times> GerbiczCheckMultipointExp + GerbiczCheckMultipointExp \<times> int \<times> Giant) option" where
  "gc_check t rec R L i x d last_power expv U =
     (case gc_verify t R L x d last_power expv U of
        None \<Rightarrow> None
      | Some (T, d_new, last_power1, expv1, U1) \<Rightarrow>
          if T \<noteq> 0 \<or> d_new = 0
          then Some (Inl (TaskRestart,
                 t\<lparr>gc_state := Some (TaskState (iteration rec)),
                   gc_X := x, gc_D := d_new, gc_U := U1,
                   gc_restart_op := gc_recovery_op t\<rparr>))
          else Some (Inr (
                 t\<lparr>gc_R := Some x, gc_X := x, gc_D := x, gc_U := U1,
                   gc_state_recovery := Some \<lparr>iteration = i, X = x\<rparr>,
                   gc_state := Some (TaskState i),
                   gc_recovery_op := gc_restart_op t,
                   gc_restart_count := 0\<rparr>, last_power1, expv1)))"

text \<open>One pass through the body of the loop over the points of
  \<^verbatim>\<open>GerbiczCheckMultipointExp::execute\<close>: the block, its verification, and the choice
  between \<^verbatim>\<open>next_point--; continue;\<close> and the next point. An exception ends it with
  the task as it is at the \<^verbatim>\<open>throw\<close>.\<close>

definition gc_iteration ::
  "GerbiczCheckMultipointExp \<Rightarrow> int \<Rightarrow> int \<Rightarrow> int \<Rightarrow> Giant
     \<Rightarrow> (error \<times> GerbiczCheckMultipointExp
          + GerbiczCheckMultipointExp \<times> int \<times> int \<times> int \<times> Giant) option" where
  "gc_iteration t next_point i last_power expv =
     (case gc_state_recovery t of
        None \<Rightarrow> None
      | Some rec \<Rightarrow>
          (case gc_R t of
             None \<Rightarrow> None
           | Some R \<Rightarrow>
               (case points_get (gc_points t) next_point of
                  None \<Rightarrow> None
                | Some p \<Rightarrow>
                    (case gc_shrink (p - iteration rec) (gc_L t) (gc_L2 t) last_power of
                       (L, L2, last_power0) \<Rightarrow>
                         (case gc_block t (iteration rec) L L2 i next_point last_power0 expv of
                            None \<Rightarrow> None
                          | Some (Inl err) \<Rightarrow> Some (Inl (err, t))
                          | Some (Inr bl) \<Rightarrow>
                              (case gc_check t rec R L (bl_i bl) (bl_X bl) (bl_D bl)
                                      (bl_last_power bl) (bl_exp bl) (bl_U bl) of
                                 None \<Rightarrow> None
                               | Some (Inl failure) \<Rightarrow> Some (Inl failure)
                               | Some (Inr (t2, last_power2, expv2)) \<Rightarrow>
                                   (case points_get (gc_points t) (bl_next_point bl) of
                                      None \<Rightarrow> None
                                    | Some p1 \<Rightarrow>
                                        Some (Inr (t2,
                                          if bl_i bl \<noteq> p1 then bl_next_point bl
                                          else bl_next_point bl + 1,
                                          bl_i bl, last_power2, expv2)))))))))"

text \<open>The loop over the points.\<close>

partial_function (option) gc_points_loop ::
  "GerbiczCheckMultipointExp \<Rightarrow> int \<Rightarrow> int \<Rightarrow> int \<Rightarrow> Giant
     \<Rightarrow> (error \<times> GerbiczCheckMultipointExp + GerbiczCheckMultipointExp) option" where
  "gc_points_loop t next_point i last_power expv =
     (if next_point < int (length (gc_points t))
      then (case gc_iteration t next_point i last_power expv of
              None \<Rightarrow> None
            | Some (Inl failure) \<Rightarrow> Some (Inl failure)
            | Some (Inr (t2, next_point2, i2, last_power2, expv2)) \<Rightarrow>
                gc_points_loop t2 next_point2 i2 last_power2 expv2)
      else Some (Inr t))"

definition Gerbicz_execute ::
  "GerbiczCheckMultipointExp \<Rightarrow> (error \<times> GerbiczCheckMultipointExp + GerbiczCheckMultipointExp) option" where
  "Gerbicz_execute t =
     (case gc_R t of
        None \<Rightarrow> None
      | Some R \<Rightarrow>
          (case state_check (gc_state t) of
             None \<Rightarrow>
               (case gc_state_recovery t of
                  None \<Rightarrow> None
                | Some rec \<Rightarrow>
                    gc_points_loop (t\<lparr>gc_X := R, gc_D := R\<rparr>)
                      (int (mp_skip (gc_points t) (iteration rec) 0)) (iteration rec) (- 1) 0)
           | Some (i, sx, sd) \<Rightarrow>
               gc_points_loop (t\<lparr>gc_X := gw_assign (gc_N t) sx, gc_D := gw_assign (gc_N t) sd\<rparr>)
                 (int (mp_skip (gc_points t) i 0)) i (- 1) 0))"

section \<open>The verification at the end of a block\<close>

lemma gc_careful_squarings_pow:
  "x = x0 ^ a mod N \<Longrightarrow> gc_careful_squarings N L j x = x0 ^ (a * 2 ^ nat (L - j)) mod N"
proof (induction N L j x arbitrary: a rule: gc_careful_squarings.induct)
  case (1 N L j x)
  show ?case
  proof (cases "j < L")
    case True
    have sq: "gw_square N 1 x False = x0 ^ (2 * a) mod N"
      unfolding "1.prems" by (rule gw_square_plain)
    have m: "nat (L - j) = Suc (nat (L - (j + 1)))" using True by simp
    have "gc_careful_squarings N L j x = gc_careful_squarings N L (j + 1) (gw_square N 1 x False)"
      by (subst gc_careful_squarings.simps) (simp only: True if_True)
    also have "\<dots> = x0 ^ (2 * a * 2 ^ nat (L - (j + 1))) mod N"
      using True sq by (rule "1.IH")
    also have "2 * a * 2 ^ nat (L - (j + 1)) = a * 2 ^ nat (L - j)" unfolding m by simp
    finally show ?thesis .
  next
    case False
    then have "nat (L - j) = 0" by simp
    moreover have "gc_careful_squarings N L j x = x"
      by (subst gc_careful_squarings.simps) (simp only: False if_False)
    ultimately show ?thesis using "1.prems" by simp
  qed
qed

text \<open>Whether the end of a block declared the block verified.\<close>

definition gc_verified ::
  "(error \<times> GerbiczCheckMultipointExp + GerbiczCheckMultipointExp \<times> int \<times> Giant) option \<Rightarrow> bool" where
  "gc_verified r = (case r of Some (Inr ok) \<Rightarrow> True | Some (Inl failure) \<Rightarrow> False | None \<Rightarrow> False)"

lemma gc_verify_value:
  assumes b: "1 \<le> gc_b t" and d: "d mod gc_N t = d"
    and cache: "last_power \<noteq> L \<or> expv = gc_b t ^ nat L"
  shows "\<exists>last_power1 expv1 U1.
     gc_verify t R L x d last_power expv U
       = Some (gw_sub (gc_N t) (gw_mul (gc_N t) R (d ^ (gc_b t ^ nat L) mod gc_N t))
                 (gw_mul (gc_N t) x d),
               gw_mul (gc_N t) x d, last_power1, expv1, U1)"
proof (cases "gc_b t = 2")
  case True
  have d1: "d = d ^ 1 mod gc_N t" using d by simp
  have "gc_careful_squarings (gc_N t) L 0 d = d ^ (gc_b t ^ nat L) mod gc_N t"
    using gc_careful_squarings_pow [OF d1, of L 0] by (simp add: True)
  then show ?thesis
    by (simp add: gc_verify_def Let_def True)
next
  case False
  define ex where "ex = (if last_power \<noteq> L then Giant_power (gc_b t) L else expv)"
  have ex: "ex = gc_b t ^ nat L" using cache by (auto simp: ex_def Giant_power_def)
  then have pos: "0 < ex" using b by simp
  obtain U1 where "sliding_window (gc_N t) (gc_W t) (gc_max_size t) ex (U, d)
      = Some (U1, d ^ ex mod gc_N t)"
    using sliding_window_correct [OF pos d] by blast
  then show ?thesis
    unfolding gc_verify_def Let_def ex_def [symmetric]
    by (simp add: False ex)
qed

lemma gc_check_cases:
  assumes "gc_verify t R L x d last_power expv U = Some (T, d_new, last_power1, expv1, U1)"
  shows "gc_check t rec R L i x d last_power expv U =
     (if T \<noteq> 0 \<or> d_new = 0
      then Some (Inl (TaskRestart,
             t\<lparr>gc_state := Some (TaskState (iteration rec)),
               gc_X := x, gc_D := d_new, gc_U := U1,
               gc_restart_op := gc_recovery_op t\<rparr>))
      else Some (Inr (
             t\<lparr>gc_R := Some x, gc_X := x, gc_D := x, gc_U := U1,
               gc_state_recovery := Some \<lparr>iteration = i, X = x\<rparr>,
               gc_state := Some (TaskState i),
               gc_recovery_op := gc_restart_op t,
               gc_restart_count := 0\<rparr>, last_power1, expv1)))"
  unfolding gc_check_def assms by simp

lemma gc_check_failure:
  assumes "gc_check t rec R L i x d last_power expv U = Some (Inl (e, t'))"
  shows "e = TaskRestart \<and> gc_state t' = Some (TaskState (iteration rec))
    \<and> gc_restart_op t' = gc_recovery_op t \<and> gc_recovery_op t' = gc_recovery_op t
    \<and> gc_state_recovery t' = gc_state_recovery t \<and> gc_R t' = gc_R t"
proof (cases "gc_verify t R L x d last_power expv U")
  case None
  then show ?thesis using assms by (simp add: gc_check_def)
next
  case (Some v)
  obtain T d_new last_power1 expv1 U1 where v: "v = (T, d_new, last_power1, expv1, U1)"
    by (cases v) auto
  show ?thesis
    using assms unfolding gc_check_cases [OF Some [unfolded v]]
    by (auto split: if_splits)
qed

lemma gc_check_success:
  assumes "gc_check t rec R L i x d last_power expv U = Some (Inr (t', last_power', expv'))"
  shows "gc_state t' = Some (TaskState i) \<and> gc_state_recovery t' = Some \<lparr>iteration = i, X = x\<rparr>
    \<and> gc_R t' = Some x \<and> gc_recovery_op t' = gc_restart_op t \<and> gc_restart_op t' = gc_restart_op t
    \<and> gc_points t' = gc_points t \<and> gc_L t' = gc_L t \<and> gc_L2 t' = gc_L2 t"
proof (cases "gc_verify t R L x d last_power expv U")
  case None
  then show ?thesis using assms by (simp add: gc_check_def)
next
  case (Some v)
  obtain T d_new last_power1 expv1 U1 where v: "v = (T, d_new, last_power1, expv1, U1)"
    by (cases v) auto
  show ?thesis
    using assms unfolding gc_check_cases [OF Some [unfolded v]]
    by (auto split: if_splits)
qed

lemma gc_iteration_restart:
  assumes "gc_iteration t next_point i last_power expv = Some (Inl (TaskRestart, t'))"
  shows "\<exists>rec. gc_state_recovery t = Some rec \<and> gc_state_recovery t' = Some rec
    \<and> gc_state t' = Some (TaskState (iteration rec))
    \<and> gc_restart_op t' = gc_recovery_op t \<and> gc_recovery_op t' = gc_recovery_op t
    \<and> gc_R t' = gc_R t"
proof -
  have blk: "gc_block t r L L2 i next_point lp0 expv \<noteq> Some (Inl TaskRestart)" for r L L2 lp0
    by (simp add: gc_block_def split: if_splits option.splits prod.splits)
  from assms blk show ?thesis
    unfolding gc_iteration_def
    by (auto split: if_splits option.splits prod.splits sum.splits dest!: gc_check_failure)
qed

lemma gc_points_loop_restart:
  assumes run: "gc_points_loop t next_point i last_power expv = Some r"
  shows "\<forall>t'. r = Inl (TaskRestart, t') \<longrightarrow>
     (\<exists>rec. gc_state_recovery t' = Some rec \<and> gc_state t' = Some (TaskState (iteration rec))
        \<and> gc_restart_op t' = gc_recovery_op t')"
proof (rule gc_points_loop.raw_induct [where P = "\<lambda>t next_point i last_power expv r.
    \<forall>t'. r = Inl (TaskRestart, t') \<longrightarrow>
     (\<exists>rec. gc_state_recovery t' = Some rec \<and> gc_state t' = Some (TaskState (iteration rec))
        \<and> gc_restart_op t' = gc_recovery_op t')", OF _ run])
  fix loop :: "GerbiczCheckMultipointExp \<Rightarrow> int \<Rightarrow> int \<Rightarrow> int \<Rightarrow> Giant
     \<Rightarrow> (error \<times> GerbiczCheckMultipointExp + GerbiczCheckMultipointExp) option"
  fix t next_point i last_power expv r
  assume IH: "\<And>t next_point i last_power expv r. loop t next_point i last_power expv = Some r \<Longrightarrow>
      \<forall>t'. r = Inl (TaskRestart, t') \<longrightarrow>
     (\<exists>rec. gc_state_recovery t' = Some rec \<and> gc_state t' = Some (TaskState (iteration rec))
        \<and> gc_restart_op t' = gc_recovery_op t')"
  assume body: "(if next_point < int (length (gc_points t))
      then (case gc_iteration t next_point i last_power expv of
              None \<Rightarrow> None
            | Some (Inl failure) \<Rightarrow> Some (Inl failure)
            | Some (Inr (t2, next_point2, i2, last_power2, expv2)) \<Rightarrow>
                loop t2 next_point2 i2 last_power2 expv2)
      else Some (Inr t)) = Some r"
  show "\<forall>t'. r = Inl (TaskRestart, t') \<longrightarrow>
     (\<exists>rec. gc_state_recovery t' = Some rec \<and> gc_state t' = Some (TaskState (iteration rec))
        \<and> gc_restart_op t' = gc_recovery_op t')"
  proof (intro allI impI)
    fix t' assume r: "r = Inl (TaskRestart, t')"
    show "\<exists>rec. gc_state_recovery t' = Some rec \<and> gc_state t' = Some (TaskState (iteration rec))
        \<and> gc_restart_op t' = gc_recovery_op t'"
    proof (cases "gc_iteration t next_point i last_power expv")
      case None
      then show ?thesis using body r by (auto split: if_splits)
    next
      case (Some v)
      show ?thesis
      proof (cases v)
        case (Inl failure)
        then have "gc_iteration t next_point i last_power expv = Some (Inl (TaskRestart, t'))"
          using body Some r by (auto split: if_splits)
        then show ?thesis using gc_iteration_restart by fastforce
      next
        case (Inr nxt)
        obtain t2 np2 i2 lp2 ex2 where nxt: "nxt = (t2, np2, i2, lp2, ex2)" by (cases nxt) auto
        have "loop t2 np2 i2 lp2 ex2 = Some r"
          using body Some Inr nxt r by (auto split: if_splits)
        then show ?thesis using IH r by blast
      qed
    qed
  qed
qed

section \<open>The states stored during a block\<close>










section \<open>Properties of the verification\<close>

text \<open>A concrete task: modulus 1009, one point at iteration 2, blocks of \<open>L2 = 2\<close> iterations
  with \<open>L = 1\<close>, the recovery state \<open>(0, 3)\<close>.\<close>

definition gc_example :: "nat \<Rightarrow> (int \<Rightarrow> bool) \<Rightarrow> TaskState option \<Rightarrow> GerbiczCheckMultipointExp" where
  "gc_example b commit s =
     \<lparr>gc_N = 1009, gc_b = b, gc_points = [2], gc_W = - 1, gc_max_size = - 1,
      gc_commit = commit, gc_L = 1, gc_L2 = 2, gc_state = s,
      gc_state_recovery = Some \<lparr>iteration = 0, X = 3\<rparr>, gc_R = Some 3, gc_X = 0, gc_D = 0,
      gc_U = [], gc_restart_op = 7, gc_recovery_op = 5, gc_restart_count = 0\<rparr>"

text \<open>
  Claim C3 (as amended). At the end of each Gerbicz block, for a base \<open>b \<ge> 1\<close>, the
  verification step always has a result. It compares the careful-arithmetic value
  \<open>R * D ^ (b ^ L)\<close>, where \<open>D\<close> is the check residue before the last fold, against
  \<open>D_new = X_end * D\<close>, and the block is declared verified if and only if the difference
  is zero and \<open>D_new\<close> is nonzero. (The hypothesis on \<open>last_power\<close> and \<open>expv\<close> says that
  the cached power \<^verbatim>\<open>exp\<close> is \<open>b ^ last_power\<close>, as \<^verbatim>\<open>execute\<close> maintains it.)
\<close>

theorem Gerbicz_verification:
  assumes "1 \<le> gc_b t" and "d mod gc_N t = d"
    and "last_power \<noteq> L \<or> expv = gc_b t ^ nat L"
  shows "gc_check t rec R L i x d last_power expv U \<noteq> None
    \<and> (gc_verified (gc_check t rec R L i x d last_power expv U) \<longleftrightarrow>
         gw_sub (gc_N t) (gw_mul (gc_N t) R (d ^ (gc_b t ^ nat L) mod gc_N t))
           (gw_mul (gc_N t) x d) = 0
         \<and> gw_mul (gc_N t) x d \<noteq> 0)"
proof -
  obtain last_power1 expv1 U1 where v: "gc_verify t R L x d last_power expv U
       = Some (gw_sub (gc_N t) (gw_mul (gc_N t) R (d ^ (gc_b t ^ nat L) mod gc_N t))
                 (gw_mul (gc_N t) x d),
               gw_mul (gc_N t) x d, last_power1, expv1, U1)"
    using gc_verify_value [OF assms] by blast
  show ?thesis
    unfolding gc_check_cases [OF v] by (simp add: gc_verified_def)
qed

lemma gc_careful_squarings_example: "gc_careful_squarings 1009 1 0 27 = 729"
  by (subst gc_careful_squarings.simps, simp add: gw_square_def)+

lemma gc_check_example:
  "gc_verified (gc_check (gc_example 2 commit s) \<lparr>iteration = 0, X = 3\<rparr> 3 1 2 81 27 (- 1) 0 [])"
  by (simp add: gc_check_def gc_verify_def gc_example_def gc_careful_squarings_example
      gw_mul_def gw_sub_def gc_verified_def)

text \<open>The block of the example task that starts from \<open>R = 3\<close> ends with \<open>X = 3 ^ 4 = 81\<close>
  and \<open>D = 3 * 9 = 27\<close>, and it is verified.\<close>

theorem Gerbicz_verification_witness:
  "1 \<le> gc_b (gc_example 2 (\<lambda>i. False) None) \<and> 27 mod gc_N (gc_example 2 (\<lambda>i. False) None) = 27
   \<and> gc_verified (gc_check (gc_example 2 (\<lambda>i. False) None) \<lparr>iteration = 0, X = 3\<rparr> 3 1 2 81 27
        (- 1) 0 [])
   \<and> gw_sub 1009 (gw_mul 1009 3 (27 ^ (2 ^ nat 1) mod 1009)) (gw_mul 1009 81 27) = 0
   \<and> gw_mul 1009 81 27 \<noteq> 0"
  using Gerbicz_verification [of "gc_example 2 (\<lambda>i. False) None" 27 "- 1" 1 0
      "\<lparr>iteration = 0, X = 3\<rparr>" 3 2 81 "[]"]
  by (simp add: gc_example_def gc_check_example [unfolded gc_example_def])

text \<open>That block is verified although \<open>R ^ (b ^ L) * D = 9 * 27\<close> differs from
  \<open>D_new = 81 * 27\<close> modulo 1009: the value compared with \<open>D_new\<close> is not
  \<open>R ^ (b ^ L) * D\<close>.\<close>

theorem Gerbicz_verification_spec_formula:
  "gc_verified (gc_check (gc_example 2 (\<lambda>i. False) None) \<lparr>iteration = 0, X = 3\<rparr> 3 1 2 81 27
        (- 1) 0 [])
   \<and> gw_sub 1009 (gw_mul 1009 (3 ^ (2 ^ nat 1) mod 1009) 27) (gw_mul 1009 81 27) \<noteq> 0"
  by (simp add: gc_check_example gw_sub_def gw_mul_def)

section \<open>Restart after a failed verification\<close>

lemma Gerbicz_execute_after_restart:
  assumes "gc_state t = Some (TaskState k)" and "gc_state_recovery t = Some rec"
  shows "Gerbicz_execute t =
     (case gc_R t of
        None \<Rightarrow> None
      | Some R \<Rightarrow> gc_points_loop (t\<lparr>gc_X := R, gc_D := R\<rparr>)
          (int (mp_skip (gc_points t) (iteration rec) 0)) (iteration rec) (- 1) 0)"
  using assms by (simp add: Gerbicz_execute_def split: option.splits)

lemma Gerbicz_execute_restart:
  assumes "Gerbicz_execute t = Some (Inl (TaskRestart, t'))"
  shows "\<exists>rec. gc_state_recovery t' = Some rec \<and> gc_state t' = Some (TaskState (iteration rec))
        \<and> gc_restart_op t' = gc_recovery_op t'"
proof -
  obtain t0 np i where "gc_points_loop t0 np i (- 1) 0 = Some (Inl (TaskRestart, t'))"
    using assms unfolding Gerbicz_execute_def
    by (auto split: option.splits prod.splits)
  then show ?thesis using gc_points_loop_restart by blast
qed

text \<open>
  Claim C6. Whenever a Gerbicz verification fails (\<open>T \<noteq> 0\<close> or \<open>D_new = 0\<close>), the end of
  the block raises the restart exception with the working state reset to a cursor at the
  recovery iteration and \<^verbatim>\<open>_restart_op\<close> set to the saved \<^verbatim>\<open>_recovery_op\<close>, while the
  recovery state, \<^verbatim>\<open>_recovery_op\<close> and the residue \<^verbatim>\<open>R\<close> are unchanged. Every run of
  \<^verbatim>\<open>execute\<close> that ends with the restart exception leaves the task in such a state, and
  \<^verbatim>\<open>execute\<close> entered again on it starts at the recovery iteration with \<open>X = D = R\<close>.
\<close>

theorem Gerbicz_failure_restart:
  assumes "gc_state_recovery t = Some rec"
    and "gc_verify t R L x d last_power expv U = Some (T, d_new, last_power1, expv1, U1)"
    and "T \<noteq> 0 \<or> d_new = 0"
    and "Gerbicz_execute t2 = Some (Inl (TaskRestart, t3))"
  shows "(\<exists>t'. gc_check t rec R L i x d last_power expv U = Some (Inl (TaskRestart, t'))
       \<and> gc_state t' = Some (TaskState (iteration rec))
       \<and> gc_restart_op t' = gc_recovery_op t \<and> gc_recovery_op t' = gc_recovery_op t
       \<and> gc_state_recovery t' = Some rec \<and> gc_R t' = gc_R t)
    \<and> (\<exists>rec3. gc_state_recovery t3 = Some rec3
       \<and> gc_state t3 = Some (TaskState (iteration rec3))
       \<and> gc_restart_op t3 = gc_recovery_op t3
       \<and> Gerbicz_execute t3 =
           (case gc_R t3 of
              None \<Rightarrow> None
            | Some R3 \<Rightarrow> gc_points_loop (t3\<lparr>gc_X := R3, gc_D := R3\<rparr>)
                (int (mp_skip (gc_points t3) (iteration rec3) 0)) (iteration rec3) (- 1) 0))"
proof -
  have a: "\<exists>t'. gc_check t rec R L i x d last_power expv U = Some (Inl (TaskRestart, t'))
       \<and> gc_state t' = Some (TaskState (iteration rec))
       \<and> gc_restart_op t' = gc_recovery_op t \<and> gc_recovery_op t' = gc_recovery_op t
       \<and> gc_state_recovery t' = Some rec \<and> gc_R t' = gc_R t"
    unfolding gc_check_cases [OF assms(2)] using assms(1,3) by auto
  obtain rec3 where r: "gc_state_recovery t3 = Some rec3"
    "gc_state t3 = Some (TaskState (iteration rec3))" "gc_restart_op t3 = gc_recovery_op t3"
    using Gerbicz_execute_restart [OF assms(4)] by blast
  show ?thesis
    using a r Gerbicz_execute_after_restart [OF r(2,1)] by blast
qed

lemma mp_skip_2: "mp_skip [2] 0 0 = 0"
  by (subst mp_skip.simps) simp

lemma gc_shrink_example: "gc_shrink 2 1 2 (- 1) = (1, 2, - 1)"
  by (subst gc_shrink.simps) simp

lemma gc_block_squarings_corrupt:
  "gc_block_squarings 1009 (\<lambda>i. False) [2] 1 2 0 0 0 5 6 s = Some (0, 2, 625, 150, s)"
  apply (subst gc_block_squarings.simps)
  apply (simp add: gc_at_point_def points_get_def gw_square_def gw_mul_def gc_commit_execute_def
      signed_modulo_int_def)
  apply (subst gc_block_squarings.simps)
  apply (simp add: gc_at_point_def points_get_def gw_square_def gw_mul_def gc_commit_execute_def
      signed_modulo_int_def)
  apply (subst gc_block_squarings.simps)
  apply simp
  done

lemma gc_careful_squarings_corrupt: "gc_careful_squarings 1009 1 0 150 = 302"
  by (subst gc_careful_squarings.simps, simp add: gw_square_def)+

text \<open>The example task with a working state whose residues are not those of the
  computation, and the task that the restart exception leaves behind.\<close>

definition gc_corrupt :: GerbiczCheckMultipointExp where
  "gc_corrupt = gc_example 2 (\<lambda>i. False) (Some (GerbiczCheckState 0 5 6))"

definition gc_corrupt_restart :: GerbiczCheckMultipointExp where
  "gc_corrupt_restart = gc_corrupt\<lparr>gc_state := Some (TaskState 0), gc_X := 625, gc_D := 922,
     gc_U := [], gc_restart_op := 5\<rparr>"

lemma gc_verify_corrupt:
  "gc_verify (gc_corrupt\<lparr>gc_X := 5, gc_D := 6\<rparr>) 3 1 625 150 (- 1) 0 [] = Some (993, 922, - 1, 0, [])"
  by (simp add: gc_verify_def gc_corrupt_def gc_example_def gc_careful_squarings_corrupt
      gw_mul_def gw_sub_def)

lemma gc_iteration_corrupt:
  "gc_iteration (gc_corrupt\<lparr>gc_X := 5, gc_D := 6\<rparr>) 0 0 (- 1) 0
     = Some (Inl (TaskRestart, gc_corrupt_restart))"
proof -
  have blk: "gc_block (gc_corrupt\<lparr>gc_X := 5, gc_D := 6\<rparr>) 0 1 2 0 0 (- 1) 0
      = Some (Inr \<lparr>bl_j = 2, bl_i = 2, bl_next_point = 0, bl_X = 625, bl_D = 150,
          bl_state = Some (GerbiczCheckState 0 5 6), bl_last_power = - 1, bl_exp = 0, bl_U = []\<rparr>)"
    by (simp add: gc_block_def gc_corrupt_def gc_example_def gc_block_squarings_corrupt)
  have chk: "gc_check (gc_corrupt\<lparr>gc_X := 5, gc_D := 6\<rparr>) \<lparr>iteration = 0, X = 3\<rparr> 3 1 2 625 150
      (- 1) 0 [] = Some (Inl (TaskRestart, gc_corrupt_restart))"
    unfolding gc_check_cases [OF gc_verify_corrupt]
    by (simp add: gc_corrupt_restart_def gc_corrupt_def gc_example_def)
  have sel: "gc_state_recovery (gc_corrupt\<lparr>gc_X := 5, gc_D := 6\<rparr>) = Some \<lparr>iteration = 0, X = 3\<rparr>"
    "gc_R (gc_corrupt\<lparr>gc_X := 5, gc_D := 6\<rparr>) = Some 3"
    "gc_points (gc_corrupt\<lparr>gc_X := 5, gc_D := 6\<rparr>) = [2]"
    "gc_L (gc_corrupt\<lparr>gc_X := 5, gc_D := 6\<rparr>) = 1"
    "gc_L2 (gc_corrupt\<lparr>gc_X := 5, gc_D := 6\<rparr>) = 2"
    by (simp_all add: gc_corrupt_def gc_example_def)
  show ?thesis
    unfolding gc_iteration_def sel
    by (simp add: points_get_def gc_shrink_example blk chk)
qed

lemma Gerbicz_execute_corrupt:
  "Gerbicz_execute gc_corrupt = Some (Inl (TaskRestart, gc_corrupt_restart))"
proof -
  have "gc_points_loop (gc_corrupt\<lparr>gc_X := 5, gc_D := 6\<rparr>) 0 0 (- 1) 0
      = Some (Inl (TaskRestart, gc_corrupt_restart))"
    by (subst gc_points_loop.simps)
      (simp add: gc_iteration_corrupt, simp add: gc_corrupt_def gc_example_def)
  then show ?thesis
    by (simp add: Gerbicz_execute_def gc_corrupt_def gc_example_def gw_assign_def mp_skip_2)
qed

theorem Gerbicz_failure_restart_witness:
  "gc_state_recovery (gc_corrupt\<lparr>gc_X := 5, gc_D := 6\<rparr>) = Some \<lparr>iteration = 0, X = 3\<rparr>
   \<and> gc_verify (gc_corrupt\<lparr>gc_X := 5, gc_D := 6\<rparr>) 3 1 625 150 (- 1) 0 []
       = Some (993, 922, - 1, 0, [])
   \<and> (993::nat) \<noteq> 0
   \<and> Gerbicz_execute gc_corrupt = Some (Inl (TaskRestart, gc_corrupt_restart))
   \<and> gc_check (gc_corrupt\<lparr>gc_X := 5, gc_D := 6\<rparr>) \<lparr>iteration = 0, X = 3\<rparr> 3 1 2 625 150 (- 1) 0 []
       = Some (Inl (TaskRestart, gc_corrupt_restart))
   \<and> gc_state gc_corrupt_restart = Some (TaskState 0)
   \<and> gc_restart_op gc_corrupt_restart = gc_recovery_op gc_corrupt
   \<and> gc_state_recovery gc_corrupt_restart = gc_state_recovery gc_corrupt"
proof -
  have h1: "gc_state_recovery (gc_corrupt\<lparr>gc_X := 5, gc_D := 6\<rparr>) = Some \<lparr>iteration = 0, X = 3\<rparr>"
    by (simp add: gc_corrupt_def gc_example_def)
  have h3: "(993::nat) \<noteq> 0 \<or> (922::nat) = 0" by simp
  have "\<exists>t'. gc_check (gc_corrupt\<lparr>gc_X := 5, gc_D := 6\<rparr>) \<lparr>iteration = 0, X = 3\<rparr> 3 1 2 625 150
          (- 1) 0 [] = Some (Inl (TaskRestart, t'))
       \<and> gc_state t' = Some (TaskState (iteration \<lparr>iteration = 0, X = 3\<rparr>))
       \<and> gc_restart_op t' = gc_recovery_op (gc_corrupt\<lparr>gc_X := 5, gc_D := 6\<rparr>)"
    using Gerbicz_failure_restart [OF h1 gc_verify_corrupt h3 Gerbicz_execute_corrupt, of 2]
    by blast
  then obtain t' where t': "gc_check (gc_corrupt\<lparr>gc_X := 5, gc_D := 6\<rparr>) \<lparr>iteration = 0, X = 3\<rparr>
      3 1 2 625 150 (- 1) 0 [] = Some (Inl (TaskRestart, t'))"
    "gc_state t' = Some (TaskState 0)"
    "gc_restart_op t' = gc_recovery_op (gc_corrupt\<lparr>gc_X := 5, gc_D := 6\<rparr>)" by auto
  have eq: "t' = gc_corrupt_restart"
    using t'(1) unfolding gc_check_cases [OF gc_verify_corrupt]
    by (simp add: gc_corrupt_restart_def gc_corrupt_def gc_example_def)
  show ?thesis
    using h1 gc_verify_corrupt Gerbicz_execute_corrupt t' unfolding eq
    by (simp add: gc_corrupt_restart_def gc_corrupt_def gc_example_def)
qed

section \<open>The state precondition of execute\<close>

text \<open>
  Claim C10. \<^verbatim>\<open>MultipointExp::execute\<close> on a task whose \<^verbatim>\<open>init\<close> found no saved state
  (and whose \<^verbatim>\<open>init_state\<close> was not invoked) fails the assertion
  \<^verbatim>\<open>GWASSERT(state() != nullptr)\<close>, and so does \<^verbatim>\<open>GerbiczCheckMultipointExp::setup\<close> when
  there is neither \<^verbatim>\<open>_R\<close> nor a recovery state; \<^verbatim>\<open>FastExp\<close> and \<^verbatim>\<open>SlowExp\<close> without a
  state start their loop at iteration 0 from the initial residue.
\<close>

theorem MultipointExp_requires_state:
  "MultipointExp_execute (MultipointExp_init t None) = Some (Inl AssertionFailed)
   \<and> Gerbicz_setup (Gerbicz_init (g\<lparr>gc_R := None, gc_state_recovery := None\<rparr>) file None)
       = Inl AssertionFailed
   \<and> FastExp_execute (fe\<lparr>fe_state := None\<rparr>)
       = FastExp_loop (fe\<lparr>fe_state := None\<rparr>) (fe_iterations fe) 0 (gw_assign (fe_N fe) (fe_x0 fe))
   \<and> SlowExp_execute (se\<lparr>se_state := None\<rparr>)
       = SlowExp_loop (se\<lparr>se_state := None\<rparr>) (gw_assign (se_N se) (se_X0 se))
           (se_iterations se) 0 (gw_assign (se_N se) (se_X0 se))"
  by (simp add: MultipointExp_execute_def MultipointExp_init_def Gerbicz_setup_def
      Gerbicz_init_def FastExp_execute_def SlowExp_execute_def Let_def split: option.splits)

theorem MultipointExp_requires_state_witness:
  "MultipointExp_execute (MultipointExp_init (mp_example 2 [10]) None) = Some (Inl AssertionFailed)
   \<and> Gerbicz_setup (Gerbicz_init (gc_example 2 (\<lambda>i. False) None
          \<lparr>gc_R := None, gc_state_recovery := None\<rparr>) None None) = Inl AssertionFailed
   \<and> FastExp_execute \<lparr>fe_N = 1009, fe_exp = 17, fe_x0 = 3, fe_iterations = 4, fe_state = None\<rparr>
       = \<lparr>iteration = 4, X = 271\<rparr>"
proof -
  have "FastExp_loop \<lparr>fe_N = 1009, fe_exp = 17, fe_x0 = 3, fe_iterations = 4, fe_state = None\<rparr>
      4 0 (gw_assign 1009 3) = \<lparr>iteration = 4, X = 271\<rparr>"
    by (simp add: FastExp_loop.simps gw_assign_def gw_square_def Giant_bit_def)
  then show ?thesis
    using MultipointExp_requires_state [of "mp_example 2 [10]" "gc_example 2 (\<lambda>i. False) None" None
        "\<lparr>fe_N = 1009, fe_exp = 17, fe_x0 = 3, fe_iterations = 4, fe_state = None\<rparr>"]
    by simp
qed

section \<open>The interval of the working iteration\<close>























end
